theory Spec2Isabelle
  imports Main "HOL-Library.Word"
begin

section \<open>Strings and errors\<close>

text \<open>
  The component is TypeScript: a string is a sequence of 16-bit code units. A value that
  may be \<^verbatim>\<open>undefined\<close> (an input the parent never bound, a field the server left out)
  is an \<open>option\<close>, \<open>None\<close> standing for \<^verbatim>\<open>undefined\<close>.
\<close>

type_synonym jschar = "16 word"
type_synonym jsstring = "jschar list"

definition ascii :: "string \<Rightarrow> jsstring" where
  "ascii s = map (\<lambda>c. of_nat (of_char c)) s"

text \<open>
  The exceptions the component can throw: the two \<^verbatim>\<open>Error\<close>s of
  \<^verbatim>\<open>checkInputParameters\<close>, the \<^verbatim>\<open>InvalidCharacterError\<close> of \<^verbatim>\<open>btoa\<close>, the
  \<^verbatim>\<open>URIError\<close> of \<^verbatim>\<open>encodeURI\<close>, and the \<^verbatim>\<open>TypeError\<close> of a property read or a
  call on \<^verbatim>\<open>undefined\<close>.
\<close>

datatype error =
    MissingApiRoute
  | MissingGetApiEndpoint
  | InvalidCharacterError
  | URIError
  | TypeError

definition isConfigurationError :: "error \<Rightarrow> bool" where
  "isConfigurationError e = (e = MissingApiRoute \<or> e = MissingGetApiEndpoint)"

text \<open>Truthiness of a string that may be undefined: defined and not empty.\<close>

definition truthy :: "jsstring option \<Rightarrow> bool" where
  "truthy v = (case v of None \<Rightarrow> False | Some s \<Rightarrow> s \<noteq> [])"

text \<open>The string an operand of \<^verbatim>\<open>+\<close> is converted to.\<close>

definition toString :: "jsstring option \<Rightarrow> jsstring" where
  "toString v = (case v of None \<Rightarrow> ascii ''undefined'' | Some s \<Rightarrow> s)"

definition startsWith :: "jsstring \<Rightarrow> jsstring \<Rightarrow> bool" where
  "startsWith s p = (take (length p) s = p)"

definition slice :: "jsstring \<Rightarrow> nat \<Rightarrow> jsstring" where
  "slice s n = drop n s"

section \<open>encodeUrlSafe: \<^verbatim>\<open>encodeURI(btoa(url))\<close>\<close>

subsection \<open>btoa\<close>

text \<open>
  \<^verbatim>\<open>btoa\<close> throws when a code unit is above 255 and otherwise encodes the code units,
  read as bytes, in base64 with the alphabet \<^verbatim>\<open>A-Z a-z 0-9 + /\<close> and \<^verbatim>\<open>=\<close> padding.
\<close>

definition b64char :: "nat \<Rightarrow> jschar" where
  "b64char n = of_nat (if n < 26 then 65 + n else if n < 52 then 97 + (n - 26)
                       else if n < 62 then 48 + (n - 52) else if n = 62 then 43 else 47)"

definition b64pad :: jschar where
  "b64pad = 61"

fun base64Encode :: "nat list \<Rightarrow> jsstring" where
  "base64Encode (a # b # c # rest) =
     [b64char (a div 4), b64char ((a mod 4) * 16 + b div 16),
      b64char ((b mod 16) * 4 + c div 64), b64char (c mod 64)] @ base64Encode rest"
| "base64Encode [a, b] =
     [b64char (a div 4), b64char ((a mod 4) * 16 + b div 16), b64char ((b mod 16) * 4), b64pad]"
| "base64Encode [a] = [b64char (a div 4), b64char ((a mod 4) * 16), b64pad, b64pad]"
| "base64Encode [] = []"

definition btoa :: "jsstring \<Rightarrow> error + jsstring" where
  "btoa s = (if list_all (\<lambda>c. c \<le> 255) s then Inr (base64Encode (map unat s))
             else Inl InvalidCharacterError)"

subsection \<open>encodeURI\<close>

text \<open>
  \<^verbatim>\<open>encodeURI\<close> keeps the reserved characters \<^verbatim>\<open>; / ? : @ & = + $ ,\<close>, the unreserved
  ones (letters, digits and \<^verbatim>\<open>- _ . ! ~ * ' ( )\<close>) and \<^verbatim>\<open>#\<close>; every other code point is
  written as the percent-escaped bytes of its UTF-8 encoding, and a surrogate without its
  partner throws.
\<close>

definition uriAlpha :: "jschar \<Rightarrow> bool" where
  "uriAlpha c = ((65 \<le> c \<and> c \<le> 90) \<or> (97 \<le> c \<and> c \<le> 122))"

definition decimalDigit :: "jschar \<Rightarrow> bool" where
  "decimalDigit c = (48 \<le> c \<and> c \<le> 57)"

definition uriMark :: "jschar \<Rightarrow> bool" where
  "uriMark c = (c \<in> set (39 # ascii ''-_.!~*()''))"

definition uriReserved :: "jschar \<Rightarrow> bool" where
  "uriReserved c = (c \<in> set (ascii '';/?:@&=+$,''))"

definition uriUnescaped :: "jschar \<Rightarrow> bool" where
  "uriUnescaped c = (uriAlpha c \<or> decimalDigit c \<or> uriMark c)"

definition encodeURI_unescapedSet :: "jschar \<Rightarrow> bool" where
  "encodeURI_unescapedSet c = (uriReserved c \<or> uriUnescaped c \<or> c = 35)"

definition hexDigit :: "nat \<Rightarrow> jschar" where
  "hexDigit n = of_nat (if n < 10 then 48 + n else 55 + n)"

definition percentOctet :: "nat \<Rightarrow> jsstring" where
  "percentOctet b = [37, hexDigit (b div 16), hexDigit (b mod 16)]"

definition utf8 :: "nat \<Rightarrow> nat list" where
  "utf8 v = (if v < 128 then [v]
             else if v < 2048 then [192 + v div 64, 128 + v mod 64]
             else if v < 65536 then [224 + v div 4096, 128 + (v div 64) mod 64, 128 + v mod 64]
             else [240 + v div 262144, 128 + (v div 4096) mod 64, 128 + (v div 64) mod 64,
                   128 + v mod 64])"

fun encode :: "(jschar \<Rightarrow> bool) \<Rightarrow> jsstring \<Rightarrow> error + jsstring" where
  "encode unescapedSet [] = Inr []"
| "encode unescapedSet (c # cs) =
     (if unescapedSet c then
        (case encode unescapedSet cs of Inl e \<Rightarrow> Inl e | Inr r \<Rightarrow> Inr (c # r))
      else if 56320 \<le> c \<and> c \<le> 57343 then Inl URIError
      else if c < 55296 \<or> 56319 < c then
        (case encode unescapedSet cs of Inl e \<Rightarrow> Inl e
         | Inr r \<Rightarrow> Inr (concat (map percentOctet (utf8 (unat c))) @ r))
      else
        (case cs of
           [] \<Rightarrow> Inl URIError
         | k # ks \<Rightarrow>
             if k < 56320 \<or> 57343 < k then Inl URIError
             else (case encode unescapedSet ks of Inl e \<Rightarrow> Inl e
                   | Inr r \<Rightarrow>
                       Inr (concat (map percentOctet
                              (utf8 ((unat c - 55296) * 1024 + (unat k - 56320) + 65536))) @ r))))"

definition encodeURI :: "jsstring \<Rightarrow> error + jsstring" where
  "encodeURI s = encode encodeURI_unescapedSet s"

subsection \<open>The key\<close>

definition encodeUrlSafe :: "jsstring \<Rightarrow> error + jsstring" where
  "encodeUrlSafe link = (case btoa link of Inl e \<Rightarrow> Inl e | Inr b \<Rightarrow> encodeURI b)"

subsection \<open>Decoding a key\<close>

text \<open>
  The component never decodes a key: the server does. The two decoders below are the
  inverse transforms the specification names, URI-unescape (each \<^verbatim>\<open>%XY\<close> becomes the
  code unit with that value, anything else is kept) followed by base64-decode (groups of
  four characters of the alphabet, the last group padded with \<^verbatim>\<open>=\<close>); \<open>None\<close> is a
  malformed input.
\<close>

definition hexVal :: "jschar \<Rightarrow> nat option" where
  "hexVal c =
     (let n = unat c in
      if 48 \<le> n \<and> n \<le> 57 then Some (n - 48)
      else if 65 \<le> n \<and> n \<le> 70 then Some (n - 55)
      else if 97 \<le> n \<and> n \<le> 102 then Some (n - 87)
      else None)"

fun uriUnescape :: "jsstring \<Rightarrow> jsstring option" where
  "uriUnescape [] = Some []"
| "uriUnescape (c # cs) =
     (if c = 37 then
        (case cs of
           h # l # rest \<Rightarrow>
             (case (hexVal h, hexVal l) of
                (Some x, Some y) \<Rightarrow>
                  (case uriUnescape rest of None \<Rightarrow> None
                   | Some r \<Rightarrow> Some (of_nat (16 * x + y) # r))
              | _ \<Rightarrow> None)
         | _ \<Rightarrow> None)
      else (case uriUnescape cs of None \<Rightarrow> None | Some r \<Rightarrow> Some (c # r)))"

definition b64val :: "jschar \<Rightarrow> nat option" where
  "b64val c =
     (let n = unat c in
      if 65 \<le> n \<and> n \<le> 90 then Some (n - 65)
      else if 97 \<le> n \<and> n \<le> 122 then Some (n - 71)
      else if 48 \<le> n \<and> n \<le> 57 then Some (n + 4)
      else if n = 43 then Some 62
      else if n = 47 then Some 63
      else None)"

fun base64Decode :: "jsstring \<Rightarrow> jsstring option" where
  "base64Decode [] = Some []"
| "base64Decode (c1 # c2 # c3 # c4 # rest) =
     (if c4 = b64pad then
        (if rest \<noteq> [] then None
         else if c3 = b64pad then
           (case (b64val c1, b64val c2) of
              (Some x1, Some x2) \<Rightarrow> Some [of_nat (x1 * 4 + x2 div 16)]
            | _ \<Rightarrow> None)
         else
           (case (b64val c1, b64val c2, b64val c3) of
              (Some x1, Some x2, Some x3) \<Rightarrow>
                Some [of_nat (x1 * 4 + x2 div 16), of_nat ((x2 mod 16) * 16 + x3 div 4)]
            | _ \<Rightarrow> None))
      else
        (case (b64val c1, b64val c2, b64val c3, b64val c4) of
           (Some x1, Some x2, Some x3, Some x4) \<Rightarrow>
             (case base64Decode rest of
                None \<Rightarrow> None
              | Some r \<Rightarrow>
                  Some (of_nat (x1 * 4 + x2 div 16) # of_nat ((x2 mod 16) * 16 + x3 div 4)
                        # of_nat ((x3 mod 4) * 64 + x4) # r))
         | _ \<Rightarrow> None))"
| "base64Decode _ = None"

definition decodeKey :: "jsstring \<Rightarrow> jsstring option" where
  "decodeKey k = (case uriUnescape k of None \<Rightarrow> None | Some b \<Rightarrow> base64Decode b)"

text \<open>
  The characters a key is made of, and the characters RFC 3986 allows in the query
  component of a URI without escaping: unreserved characters, sub-delimiters and
  \<^verbatim>\<open>: @ / ?\<close>. A cache key is any string, so every code unit is valid there.
\<close>

definition isBase64Char :: "jschar \<Rightarrow> bool" where
  "isBase64Char c = (uriAlpha c \<or> decimalDigit c \<or> c = 43 \<or> c = 47 \<or> c = 61)"

definition uriQueryChar :: "jschar \<Rightarrow> bool" where
  "uriQueryChar c =
     (uriAlpha c \<or> decimalDigit c \<or> c \<in> set (ascii ''-._~'')
      \<or> c \<in> set (39 # ascii ''!$&()*+,;='') \<or> c \<in> set (ascii '':@/?''))"

section \<open>parseStringForLinks\<close>

subsection \<open>Regular expressions\<close>

text \<open>
  \<^verbatim>\<open>msg.match(/.../gim)\<close> is the backtracking matcher of the language. A position is the
  code unit before the current index (\<open>None\<close> at index 0) and the input from the index
  on; matching a pattern at a position gives the positions it can end at, in the order
  the matcher tries them (a greedy quantifier tries the longest repetition first). The
  pattern of the component needs single code units of a class, bounded and unbounded
  greedy repetition of a class, optional groups, sequencing and the word boundary.
\<close>

type_synonym position = "jschar option \<times> jsstring"

datatype regex =
    Epsilon
  | Chars "jschar \<Rightarrow> bool"
  | Repeat nat "nat option" "jschar \<Rightarrow> bool"
  | Optional regex
  | Seq regex regex
  | WordBoundary

definition wordChar :: "jschar \<Rightarrow> bool" where
  "wordChar c = (uriAlpha c \<or> decimalDigit c \<or> c = 95)"

definition wordBefore :: "jschar option \<Rightarrow> bool" where
  "wordBefore p = (case p of None \<Rightarrow> False | Some c \<Rightarrow> wordChar c)"

definition wordAfter :: "jsstring \<Rightarrow> bool" where
  "wordAfter s = (case s of [] \<Rightarrow> False | c # _ \<Rightarrow> wordChar c)"

fun repeatChars ::
  "(jschar \<Rightarrow> bool) \<Rightarrow> nat \<Rightarrow> nat option \<Rightarrow> jschar option \<Rightarrow> jsstring \<Rightarrow> position list" where
  "repeatChars P mn mx p [] = (if mn = 0 then [(p, [])] else [])"
| "repeatChars P mn mx p (c # cs) =
     (if P c \<and> mx \<noteq> Some 0
      then repeatChars P (mn - 1) (map_option (\<lambda>n. n - 1) mx) (Some c) cs else [])
     @ (if mn = 0 then [(p, c # cs)] else [])"

fun matches :: "regex \<Rightarrow> position \<Rightarrow> position list" where
  "matches Epsilon x = [x]"
| "matches (Chars P) (p, s) =
     (case s of [] \<Rightarrow> [] | c # cs \<Rightarrow> if P c then [(Some c, cs)] else [])"
| "matches (Repeat mn mx P) (p, s) = repeatChars P mn mx p s"
| "matches (Optional r) x = matches r x @ [x]"
| "matches (Seq r1 r2) x = concat (map (matches r2) (matches r1 x))"
| "matches WordBoundary (p, s) = (if wordBefore p \<noteq> wordAfter s then [(p, s)] else [])"

text \<open>
  The global search: the first way the pattern matches at the current index is the match;
  the search goes on behind it (one index further after an empty match), and at the next
  index when nothing matches.
\<close>

fun matchGlobal :: "regex \<Rightarrow> jschar option \<Rightarrow> jsstring \<Rightarrow> jsstring list" where
  "matchGlobal r p [] = (case matches r (p, []) of [] \<Rightarrow> [] | _ # _ \<Rightarrow> [[]])"
| "matchGlobal r p (c # cs) =
     (case matches r (p, c # cs) of
        [] \<Rightarrow> matchGlobal r (Some c) cs
      | (p', rest) # _ \<Rightarrow>
          if length rest < length (c # cs)
          then take (length (c # cs) - length rest) (c # cs) # matchGlobal r p' rest
          else [] # matchGlobal r (Some c) cs)"

text \<open>\<^verbatim>\<open>String.prototype.match\<close> with the \<^verbatim>\<open>g\<close> flag: \<^verbatim>\<open>null\<close> when nothing matches.\<close>

definition stringMatch :: "regex \<Rightarrow> jsstring \<Rightarrow> jsstring list option" where
  "stringMatch r s = (case matchGlobal r None s of [] \<Rightarrow> None | m # ms \<Rightarrow> Some (m # ms))"

text \<open>
  What it means for a pattern to match between two positions, without any search order:
  the language of the pattern, read in context because of the word boundary.
\<close>

definition lastOr :: "jschar option \<Rightarrow> jsstring \<Rightarrow> jschar option" where
  "lastOr p w = (if w = [] then p else Some (last w))"

fun accepts :: "regex \<Rightarrow> position \<Rightarrow> position \<Rightarrow> bool" where
  "accepts Epsilon x y = (y = x)"
| "accepts (Chars P) x y = (\<exists>c. snd x = c # snd y \<and> P c \<and> fst y = Some c)"
| "accepts (Repeat mn mx P) x y =
     (\<exists>w. snd x = w @ snd y \<and> list_all P w \<and> mn \<le> length w
          \<and> (case mx of None \<Rightarrow> True | Some n \<Rightarrow> length w \<le> n) \<and> fst y = lastOr (fst x) w)"
| "accepts (Optional r) x y = (accepts r x y \<or> y = x)"
| "accepts (Seq r1 r2) x y = (\<exists>z. accepts r1 x z \<and> accepts r2 z y)"
| "accepts WordBoundary x y = (y = x \<and> wordBefore (fst x) \<noteq> wordAfter (snd x))"

definition containsMatch :: "regex \<Rightarrow> jsstring \<Rightarrow> bool" where
  "containsMatch r text =
     (\<exists>pre w post q. text = pre @ w @ post \<and> accepts r (lastOr None pre, w @ post) (q, post))"

text \<open>
  A string \<open>m\<close> occurs in \<open>s\<close> as a match of the pattern, \<open>p\<close> being the code unit
  before \<open>s\<close>.
\<close>

definition occursIn :: "regex \<Rightarrow> jschar option \<Rightarrow> jsstring \<Rightarrow> jsstring \<Rightarrow> bool" where
  "occursIn r p s m =
     (\<exists>pre post q. s = pre @ m @ post \<and> accepts r (lastOr p pre, m @ post) (q, post))"

subsection \<open>The pattern of the component\<close>

text \<open>
  \<^verbatim>\<open>/https?:\/\/(www\.)?[-a-zA-Z0-9@:%._+~#=]{1,256}\.[a-zA-Z0-9()]{1,6}\b([-a-zA-Z0-9()@:%_+.~#?&\/=]*)/gim\<close>

  With the \<^verbatim>\<open>i\<close> flag a letter of the pattern matches itself and its other case; the
  classes hold both cases already. The \<^verbatim>\<open>m\<close> flag changes \<^verbatim>\<open>^\<close> and \<^verbatim>\<open>$\<close> only, which
  the pattern does not use.
\<close>

definition lit :: "char \<Rightarrow> regex" where
  "lit ch = Chars (\<lambda>c. c = of_nat (of_char ch))"

definition litIgnoreCase :: "char \<Rightarrow> regex" where
  "litIgnoreCase ch = Chars (\<lambda>c. c = of_nat (of_char ch) \<or> c = of_nat (of_char ch - 32))"

fun seqs :: "regex list \<Rightarrow> regex" where
  "seqs [] = Epsilon"
| "seqs [r] = r"
| "seqs (r # rs) = Seq r (seqs rs)"

definition hostChar :: "jschar \<Rightarrow> bool" where
  "hostChar c = (uriAlpha c \<or> decimalDigit c \<or> c \<in> set (ascii ''-@:%._+~#=''))"

definition tldChar :: "jschar \<Rightarrow> bool" where
  "tldChar c = (uriAlpha c \<or> decimalDigit c \<or> c \<in> set (ascii ''()''))"

definition pathChar :: "jschar \<Rightarrow> bool" where
  "pathChar c = (uriAlpha c \<or> decimalDigit c \<or> c \<in> set (ascii ''-()@:%_+.~#?&/=''))"

definition urlPattern :: regex where
  "urlPattern =
     seqs [litIgnoreCase CHR ''h'', litIgnoreCase CHR ''t'', litIgnoreCase CHR ''t'',
           litIgnoreCase CHR ''p'', Optional (litIgnoreCase CHR ''s''),
           lit CHR '':'', lit CHR ''/'', lit CHR ''/'',
           Optional (seqs [litIgnoreCase CHR ''w'', litIgnoreCase CHR ''w'',
                           litIgnoreCase CHR ''w'', lit CHR ''.'']),
           Repeat 1 (Some 256) hostChar,
           lit CHR ''.'',
           Repeat 1 (Some 6) tldChar,
           WordBoundary,
           Repeat 0 None pathChar]"

text \<open>
  \<^verbatim>\<open>parseStringForLinks(msg)\<close>: the matches, or the empty array when \<^verbatim>\<open>match\<close> gives
  \<^verbatim>\<open>null\<close>. Reading \<^verbatim>\<open>msg.match\<close> of an undefined \<^verbatim>\<open>msg\<close> throws.
\<close>

definition parseStringForLinks :: "jsstring option \<Rightarrow> error + jsstring list" where
  "parseStringForLinks msg =
     (case msg of
        None \<Rightarrow> Inl TypeError
      | Some m \<Rightarrow>
          (case stringMatch urlPattern m of
             Some found \<Rightarrow> Inr found
           | None \<Rightarrow> Inr []))"

section \<open>Metadata and the image URL\<close>

text \<open>
  Modelled from the spec: the interface \<^verbatim>\<open>OpenGraphMetaData\<close> is imported by the
  component and declared elsewhere. The record has the attributes the specification lists
  for a metadata record, each optional; the component reads two of them, the image as
  \<^verbatim>\<open>p['og:image']\<close> and the origin domain as \<^verbatim>\<open>p.source\<close>.
\<close>

record metadata =
  title :: "jsstring option"
  description :: "jsstring option"
  siteName :: "jsstring option"
  og_image :: "jsstring option"
  pageUrl :: "jsstring option"
  source :: "jsstring option"

text \<open>
  \<^verbatim>\<open>getSanitizedImageUrl(p)\<close>: \<open>Inr None\<close> is the function falling off its last
  \<^verbatim>\<open>else if\<close> and returning \<^verbatim>\<open>undefined\<close>; \<^verbatim>\<open>startsWith\<close> of an undefined image throws.
\<close>

definition getSanitizedImageUrl :: "metadata \<Rightarrow> error + jsstring option" where
  "getSanitizedImageUrl p =
     (case og_image p of
        None \<Rightarrow> Inl TypeError
      | Some img \<Rightarrow>
          if startsWith img (ascii ''http'') then Inr (Some img)
          else if startsWith img (ascii ''www'') then Inr (Some img)
          else if startsWith img (ascii ''//www'') then
            Inr (Some (ascii ''https://'' @ slice img 2))
          else if startsWith img (ascii ''/yts/'') then
            Inr (Some (ascii ''https://'' @ toString (source p) @ img))
          else Inr None)"

section \<open>The component\<close>

text \<open>
  The inputs the parent binds, and the component with its collaborators. \<open>'o\<close> is the
  type of the observables the injected \<^verbatim>\<open>getApiEndpoint$\<close> returns. The display
  switches (\<^verbatim>\<open>showImage\<close> and the like) are read by the template only.
\<close>

record 'o inputs =
  links :: "jsstring list option"
  parseForLinksStr :: "jsstring option"
  getApiEndpoint :: "(jsstring \<Rightarrow> 'o) option"
  apiRoute :: "jsstring option"
  queryParamName :: jsstring
  useCache :: bool

text \<open>
  Modelled from the spec: the classes \<^verbatim>\<open>NgxLinkPreviewCacheService\<close> and
  \<^verbatim>\<open>NgxLinkPreviewLoadingManager\<close> are imported by the component and declared elsewhere.
  The cache is a store from keys to metadata records: \<open>get\<close> is a lookup without side
  effect, \<open>put\<close> inserts or overwrites, nothing is ever deleted. The loading manager
  holds the set of pending keys: \<open>addTask\<close> marks a key pending (twice is once),
  \<open>removeTask\<close> clears it (nothing happens when it is not pending), and its signal is
  true exactly when the set is not empty.
\<close>

type_synonym cache = "jsstring \<rightharpoonup> metadata"

definition getCacheItem :: "cache \<Rightarrow> jsstring \<Rightarrow> metadata option" where
  "getCacheItem c k = c k"

definition updateCacheItem :: "cache \<Rightarrow> jsstring \<Rightarrow> metadata \<Rightarrow> cache" where
  "updateCacheItem c k v = c(k \<mapsto> v)"

definition addTask :: "jsstring set \<Rightarrow> jsstring \<Rightarrow> jsstring set" where
  "addTask pending k = insert k pending"

definition removeTask :: "jsstring set \<Rightarrow> jsstring \<Rightarrow> jsstring set" where
  "removeTask pending k = pending - {k}"

definition hasPendingJobs :: "jsstring set \<Rightarrow> bool" where
  "hasPendingJobs pending = (pending \<noteq> {})"

text \<open>
  The state a trigger works on: the inputs, the two private fields \<^verbatim>\<open>scannedLinks\<close> and
  \<^verbatim>\<open>previews\<close>, the cache of \<^verbatim>\<open>cacheSvc\<close>, the pending set of \<^verbatim>\<open>loadingMgr\<close>, and
  the subscriptions made so far: for each call of \<^verbatim>\<open>getApiEndpoint$(requestUrl).subscribe\<close>
  the observable it was made on and the \<^verbatim>\<open>encodedLink\<close> its callback closes over.

  What the observables do belongs to the state as well. An observable may emit inside
  \<^verbatim>\<open>subscribe\<close>, before the subscribing code goes on, or later, when the host runs the
  callback as an event of its own: \<open>syncEmits s n obs\<close> are the responses the observable
  \<open>obs\<close> emits inside \<^verbatim>\<open>subscribe\<close> when it is subscribed to as subscription number
  \<open>n\<close> (none for an observable that answers later, as an HTTP request does). The
  responses delivered to callbacks so far are logged in \<open>completions\<close>, each with the
  key of its callback.
\<close>

record 'o component = "'o inputs" +
  scannedLinks :: "jsstring list"
  previews :: "metadata list"
  cacheSvc :: cache
  loadingMgr :: "jsstring set"
  subscriptions :: "('o \<times> jsstring) list"
  syncEmits :: "nat \<Rightarrow> 'o \<Rightarrow> metadata list"
  completions :: "(jsstring \<times> metadata) list"

text \<open>
  The result of running code that may throw: the exception, if one was thrown, and the
  state as the code left it.
\<close>

type_synonym 'o outcome = "error option \<times> 'o component"

definition checkInputParameters :: "'o component \<Rightarrow> error option" where
  "checkInputParameters s =
     (if \<not> truthy (apiRoute s) then Some MissingApiRoute
      else (case getApiEndpoint s of None \<Rightarrow> Some MissingGetApiEndpoint | Some _ \<Rightarrow> None))"

text \<open>The callback of a subscription, statement by statement.\<close>

definition callbackSteps :: "jsstring \<Rightarrow> metadata \<Rightarrow> ('o component \<Rightarrow> 'o component) list" where
  "callbackSteps encodedLink resp =
     [\<lambda>s. s\<lparr>cacheSvc := updateCacheItem (cacheSvc s) encodedLink resp\<rparr>,
      \<lambda>s. s\<lparr>loadingMgr := removeTask (loadingMgr s) encodedLink\<rparr>,
      \<lambda>s. s\<lparr>previews := previews s @ [resp]\<rparr>]"

definition runSteps :: "('s \<Rightarrow> 's) list \<Rightarrow> 's \<Rightarrow> 's" where
  "runSteps steps s = fold (\<lambda>step t. step t) steps s"

definition callback :: "jsstring \<Rightarrow> metadata \<Rightarrow> 'o component \<Rightarrow> 'o component" where
  "callback encodedLink resp s = runSteps (callbackSteps encodedLink resp) s"

text \<open>
  An observable emits a response: the callback runs, and the response is logged. The call
  \<^verbatim>\<open>subscribe(callback)\<close> on an observable records the subscription and delivers what
  the observable emits at once.
\<close>

definition deliver :: "jsstring \<Rightarrow> metadata \<Rightarrow> 'o component \<Rightarrow> 'o component" where
  "deliver encodedLink resp s =
     (let s' = callback encodedLink resp s
      in s'\<lparr>completions := completions s' @ [(encodedLink, resp)]\<rparr>)"

definition subscribe :: "'o \<Rightarrow> jsstring \<Rightarrow> 'o component \<Rightarrow> 'o component" where
  "subscribe obs encodedLink s =
     fold (deliver encodedLink) (syncEmits s (length (subscriptions s)) obs)
       (s\<lparr>subscriptions := subscriptions s @ [(obs, encodedLink)]\<rparr>)"

text \<open>The \<^verbatim>\<open>for\<close> loop of \<^verbatim>\<open>init\<close> over the scanned links.\<close>

definition requestUrlOf :: "'o component \<Rightarrow> jsstring \<Rightarrow> jsstring" where
  "requestUrlOf s encodedLink =
     toString (apiRoute s) @ ascii ''?'' @ queryParamName s @ ascii ''='' @ encodedLink"

fun forLinks :: "'o component \<Rightarrow> jsstring list \<Rightarrow> 'o outcome" where
  "forLinks s [] = (None, s)"
| "forLinks s (link # rest) =
     (case encodeUrlSafe link of
        Inl e \<Rightarrow> (Some e, s)
      | Inr encodedLink \<Rightarrow>
          (let requestUrl = requestUrlOf s encodedLink in
           case (useCache s, getCacheItem (cacheSvc s) encodedLink) of
             (True, Some item) \<Rightarrow> forLinks (s\<lparr>previews := previews s @ [item]\<rparr>) rest
           | _ \<Rightarrow>
               (let s' = s\<lparr>loadingMgr := addTask (loadingMgr s) encodedLink\<rparr> in
                case getApiEndpoint s' of
                  None \<Rightarrow> (Some TypeError, s')
                | Some fetch \<Rightarrow> forLinks (subscribe (fetch requestUrl) encodedLink s') rest)))"

text \<open>The two steps of \<^verbatim>\<open>init\<close> that collect the scanned links.\<close>

definition scanText :: "'o component \<Rightarrow> error + 'o component" where
  "scanText s =
     (if truthy (parseForLinksStr s) then
        (case parseStringForLinks (parseForLinksStr s) of
           Inl e \<Rightarrow> Inl e
         | Inr found \<Rightarrow> Inr (s\<lparr>scannedLinks := scannedLinks s @ found\<rparr>))
      else Inr s)"

definition scanLinks :: "'o component \<Rightarrow> 'o component" where
  "scanLinks s =
     (case links s of
        None \<Rightarrow> s
      | Some ls \<Rightarrow> if ls \<noteq> [] then s\<lparr>scannedLinks := scannedLinks s @ ls\<rparr> else s)"

definition init :: "'o component \<Rightarrow> 'o outcome" where
  "init s =
     (let s1 = s\<lparr>scannedLinks := [], previews := []\<rparr> in
      case checkInputParameters s1 of
        Some e \<Rightarrow> (Some e, s1)
      | None \<Rightarrow>
          (case scanText s1 of
             Inl e \<Rightarrow> (Some e, s1)
           | Inr s2 \<Rightarrow>
               (let s3 = scanLinks s2 in forLinks s3 (scannedLinks s3))))"

definition ngOnChanges :: "'o component \<Rightarrow> 'o outcome" where
  "ngOnChanges s = init s"

text \<open>
  The candidate links as the specification words them: the links the extractor finds in
  the free text, if there is one, followed by the explicit links, if there are any.
\<close>

definition candidateLinks :: "jsstring option \<Rightarrow> jsstring list option \<Rightarrow> error + jsstring list" where
  "candidateLinks str explicit =
     (case (case str of None \<Rightarrow> Inr [] | Some t \<Rightarrow> parseStringForLinks (Some t)) of
        Inl e \<Rightarrow> Inl e
      | Inr extracted \<Rightarrow> Inr (extracted @ (case explicit of None \<Rightarrow> [] | Some ls \<Rightarrow> ls)))"

section \<open>Runs of the component\<close>

text \<open>
  What happens to a component: the parent binds new inputs, and \<^verbatim>\<open>ngOnChanges\<close> runs
  (an exception it throws goes to the host, the state stays as the trigger left it); or the
  observable of a subscription emits a response after the subscribing code has returned,
  and the callback of that subscription runs.
\<close>

datatype 'o event =
    Changes "'o inputs"
  | Emits nat metadata

definition bindInputs :: "'o inputs \<Rightarrow> 'o component \<Rightarrow> 'o component" where
  "bindInputs i s =
     s\<lparr>links := links i, parseForLinksStr := parseForLinksStr i,
       getApiEndpoint := getApiEndpoint i, apiRoute := apiRoute i,
       queryParamName := queryParamName i, useCache := useCache i\<rparr>"

fun step :: "'o component \<Rightarrow> 'o event \<Rightarrow> 'o component" where
  "step s (Changes i) = snd (ngOnChanges (bindInputs i s))"
| "step s (Emits n resp) =
     (if n < length (subscriptions s) then deliver (snd (subscriptions s ! n)) resp s else s)"

fun run :: "'o component \<Rightarrow> 'o event list \<Rightarrow> 'o component" where
  "run s [] = s"
| "run s (e # es) = run (step s e) es"

text \<open>
  The cache holds, for the key of every completed fetch, the response of the latest fetch
  completed for that key.
\<close>

definition latestFor :: "jsstring \<Rightarrow> (jsstring \<times> metadata) list \<Rightarrow> metadata option" where
  "latestFor k log =
     (case filter (\<lambda>x. fst x = k) log of [] \<Rightarrow> None | x # xs \<Rightarrow> Some (snd (last (x # xs))))"

definition cacheHoldsLatest :: "'o component \<Rightarrow> bool" where
  "cacheHoldsLatest s =
     (\<forall>x \<in> set (completions s). cacheSvc s (fst x) = latestFor (fst x) (completions s))"

text \<open>
  A component as its constructor leaves it, with a cache and nothing bound, among
  observables that answer later.
\<close>

definition newComponent :: "cache \<Rightarrow> 'o component" where
  "newComponent c =
     \<lparr>links = Some [], parseForLinksStr = None, getApiEndpoint = None, apiRoute = None,
      queryParamName = ascii ''url'', useCache = True,
      scannedLinks = [], previews = [], cacheSvc = c, loadingMgr = {}, subscriptions = [],
      syncEmits = (\<lambda>n obs. []), completions = []\<rparr>"

text \<open>A key the loop serves from the cache: cache usage is on and the cache has an entry.\<close>

definition cacheHit :: "'o component \<Rightarrow> jsstring \<Rightarrow> bool" where
  "cacheHit s k = (useCache s \<and> getCacheItem (cacheSvc s) k \<noteq> None)"

section \<open>Example data\<close>

text \<open>
  A link, its key, a response of the server, and inputs as a parent binds them. In the
  examples an observable is named by the request URL it was made for.
\<close>

definition exampleLink :: jsstring where
  "exampleLink = ascii ''https://example.com''"

definition exampleKey :: jsstring where
  "exampleKey = ascii ''aHR0cHM6Ly9leGFtcGxlLmNvbQ==''"

definition exampleResp :: metadata where
  "exampleResp =
     \<lparr>title = Some (ascii ''Example''), description = None, siteName = None, og_image = None,
      pageUrl = Some exampleLink, source = None\<rparr>"

definition secondResp :: metadata where
  "secondResp = exampleResp\<lparr>title := Some (ascii ''Second'')\<rparr>"

definition exampleInputs :: "jsstring inputs" where
  "exampleInputs =
     \<lparr>links = Some [exampleLink], parseForLinksStr = None, getApiEndpoint = Some (\<lambda>u. u),
      apiRoute = Some (ascii ''api.example.com/meta''), queryParamName = ascii ''url'',
      useCache = True\<rparr>"

definition exampleRequest :: jsstring where
  "exampleRequest = ascii ''api.example.com/meta?url=aHR0cHM6Ly9leGFtcGxlLmNvbQ==''"

definition exampleComponent :: "jsstring component" where
  "exampleComponent = bindInputs exampleInputs (newComponent Map.empty)"

text \<open>The example component after its first trigger, and after the response has come.\<close>

definition examplePending :: "jsstring component" where
  "examplePending = run (newComponent Map.empty) [Changes exampleInputs]"

definition exampleCached :: "jsstring component" where
  "exampleCached = run (newComponent Map.empty) [Changes exampleInputs, Emits 0 exampleResp]"

text \<open>
  The same link given twice, and both fetches answered, with different responses.
\<close>

definition exampleTwice :: "jsstring component" where
  "exampleTwice =
     run (newComponent Map.empty)
       [Changes (exampleInputs\<lparr>links := Some [exampleLink, exampleLink]\<rparr>),
        Emits 0 exampleResp, Emits 1 secondResp]"

text \<open>The example component among observables that answer inside \<^verbatim>\<open>subscribe\<close>.\<close>

definition exampleSync :: "jsstring component" where
  "exampleSync = exampleComponent\<lparr>syncEmits := (\<lambda>n obs. [exampleResp])\<rparr>"

text \<open>A text with a link in it, and a link with a code unit \<^verbatim>\<open>btoa\<close> refuses.\<close>

definition exampleText :: jsstring where
  "exampleText = ascii ''see http://foo.bar.org/x now''"

definition badLink :: jsstring where
  "badLink = ascii ''https://example.com/'' @ [8364]"

section \<open>The key encoder\<close>

lemma unat_b64char:
  "n < 64 \<Longrightarrow> unat (b64char n) =
     (if n < 26 then 65 + n else if n < 52 then 71 + n
      else if n < 62 then n - 4 else if n = 62 then 43 else 47)"
  by (simp add: b64char_def unat_of_nat)

lemma b64val_b64char: "n < 64 \<Longrightarrow> b64val (b64char n) = Some n"
  by (auto simp: b64val_def unat_b64char Let_def)

lemma b64char_not_pad: "n < 64 \<Longrightarrow> b64char n \<noteq> b64pad"
proof
  assume n: "n < 64" and "b64char n = b64pad"
  then have "unat (b64char n) = 61" by (simp add: b64pad_def)
  with n show False by (simp add: unat_b64char split: if_splits)
qed

lemma isBase64Char_b64char: "n < 64 \<Longrightarrow> isBase64Char (b64char n)"
  unfolding isBase64Char_def uriAlpha_def decimalDigit_def word_le_nat_alt word_unat_eq_iff
  by (simp add: unat_b64char) arith

lemma isBase64Char_unescaped: "isBase64Char c \<Longrightarrow> encodeURI_unescapedSet c"
  by (auto simp: isBase64Char_def encodeURI_unescapedSet_def uriUnescaped_def uriReserved_def
      ascii_def)

lemma isBase64Char_query: "isBase64Char c \<Longrightarrow> uriQueryChar c"
  by (auto simp: isBase64Char_def uriQueryChar_def ascii_def)

lemma isBase64Char_not_percent: "isBase64Char c \<Longrightarrow> c \<noteq> 37"
  by (auto simp: isBase64Char_def uriAlpha_def decimalDigit_def)

text \<open>Three bytes are four sextets, and the sextets give the bytes back.\<close>

lemma sextets:
  fixes a b c :: nat
  assumes "a < 256" "b < 256" "c < 256"
  shows "a div 4 < 64" "(a mod 4) * 16 + b div 16 < 64" "(b mod 16) * 4 + c div 64 < 64"
    "c mod 64 < 64" "(a mod 4) * 16 < 64" "(b mod 16) * 4 < 64"
  using assms by simp_all

lemma octets:
  fixes a b c :: nat
  assumes "a < 256" "b < 256" "c < 256"
  shows "a div 4 * 4 + ((a mod 4) * 16 + b div 16) div 16 = a"
    "(((a mod 4) * 16 + b div 16) mod 16) * 16 + ((b mod 16) * 4 + c div 64) div 4 = b"
    "(((b mod 16) * 4 + c div 64) mod 4) * 64 + c mod 64 = c"
    "a div 4 * 4 + ((a mod 4) * 16) div 16 = a"
    "(((a mod 4) * 16 + b div 16) mod 16) * 16 + ((b mod 16) * 4) div 4 = b"
  using assms by simp_all

lemma base64Encode_chars:
  "list_all (\<lambda>b. b < 256) bs \<Longrightarrow> list_all isBase64Char (base64Encode bs)"
proof (induction bs rule: base64Encode.induct)
  case (1 a b c rest)
  then have "a < 256" "b < 256" "c < 256" by simp_all
  from sextets [OF this] "1" show ?case
    by (simp add: isBase64Char_b64char)
next
  case (2 a b)
  then have "a < 256" "b < 256" "(0::nat) < 256" by simp_all
  from sextets [OF this] show ?case
    by (simp add: isBase64Char_b64char) (simp add: isBase64Char_def b64pad_def)
next
  case (3 a)
  then have "a < 256" "(0::nat) < 256" "(0::nat) < 256" by simp_all
  from sextets [OF this] show ?case
    by (simp add: isBase64Char_b64char) (simp add: isBase64Char_def b64pad_def)
next
  case 4
  then show ?case by simp
qed

lemma encode_unescaped_id: "list_all P s \<Longrightarrow> encode P s = Inr s"
  by (induction s) simp_all

lemma uriUnescape_id: "list_all (\<lambda>c. c \<noteq> 37) s \<Longrightarrow> uriUnescape s = Some s"
  by (induction s) simp_all

lemma base64_roundtrip:
  "list_all (\<lambda>b. b < 256) bs \<Longrightarrow> base64Decode (base64Encode bs) = Some (map of_nat bs)"
proof (induction bs rule: base64Encode.induct)
  case (1 a b c rest)
  then have lt: "a < 256" "b < 256" "c < 256" and rest: "list_all (\<lambda>b. b < 256) rest"
    by simp_all
  from sextets [OF lt] octets [OF lt] "1.IH" [OF rest] show ?case
    by (simp add: b64val_b64char b64char_not_pad)
next
  case (2 a b)
  then have lt: "a < 256" "b < 256" "(0::nat) < 256" by simp_all
  from sextets [OF lt] octets [OF lt] show ?case
    by (simp add: b64val_b64char b64char_not_pad)
next
  case (3 a)
  then have lt: "a < 256" "(0::nat) < 256" "(0::nat) < 256" by simp_all
  from sextets [OF lt] octets [OF lt] show ?case
    by (simp add: b64val_b64char b64char_not_pad)
next
  case 4
  show ?case by simp
qed

lemma bytes_of_latin1:
  "list_all (\<lambda>c. c \<le> 255) (u :: jsstring) \<Longrightarrow> list_all (\<lambda>b. b < 256) (map unat u)"
  by (induction u) (auto simp: word_le_nat_alt)

text \<open>
  Every character of a base64 text is one \<^verbatim>\<open>encodeURI\<close> keeps, so the second stage of
  the encoder changes nothing: the key is the base64 text itself.
\<close>

lemma encodeUrlSafe_eq:
  assumes "list_all (\<lambda>c. c \<le> 255) u"
  shows "encodeUrlSafe u = Inr (base64Encode (map unat u))"
proof -
  have "list_all isBase64Char (base64Encode (map unat u))"
    using assms by (intro base64Encode_chars bytes_of_latin1)
  then have "list_all encodeURI_unescapedSet (base64Encode (map unat u))"
    by (simp add: list_all_iff isBase64Char_unescaped)
  then show ?thesis
    using assms by (simp add: encodeUrlSafe_def btoa_def encodeURI_def encode_unescaped_id)
qed

lemma encodeUrlSafe_fails:
  "\<not> list_all (\<lambda>c. c \<le> 255) u \<Longrightarrow> encodeUrlSafe u = Inl InvalidCharacterError"
  by (simp add: encodeUrlSafe_def btoa_def)

lemmas key_eval =
  encodeUrlSafe_def btoa_def encodeURI_def ascii_def b64char_def b64pad_def
  encodeURI_unescapedSet_def uriReserved_def uriUnescaped_def uriAlpha_def uriMark_def
  decimalDigit_def decodeKey_def b64val_def isBase64Char_def uriQueryChar_def

text \<open>
  C5. Round trip of the key encoder: for every link whose code units all fit a byte (the
  links \<^verbatim>\<open>btoa\<close> accepts), \<open>encodeUrlSafe\<close> returns a key, and URI-unescape followed by
  base64-decode of that key gives the link back.
\<close>

theorem encodeUrlSafe_roundtrip:
  assumes "list_all (\<lambda>c. c \<le> 255) u"
  shows "\<exists>k. encodeUrlSafe u = Inr k \<and> decodeKey k = Some u"
proof -
  let ?k = "base64Encode (map unat u)"
  have chars: "list_all isBase64Char ?k"
    using assms by (intro base64Encode_chars bytes_of_latin1)
  then have "list_all (\<lambda>c. c \<noteq> 37) ?k"
    by (simp add: list_all_iff isBase64Char_not_percent)
  then have "uriUnescape ?k = Some ?k" by (rule uriUnescape_id)
  moreover have "base64Decode ?k = Some (map of_nat (map unat u))"
    using assms by (intro base64_roundtrip bytes_of_latin1)
  moreover have "map of_nat (map unat u) = u" by (simp add: map_idI)
  ultimately show ?thesis
    using encodeUrlSafe_eq [OF assms] by (simp add: decodeKey_def)
qed

theorem encodeUrlSafe_roundtrip_witness:
  "list_all (\<lambda>c. c \<le> 255) (ascii ''https://example.com'')
   \<and> encodeUrlSafe (ascii ''https://example.com'') = Inr (ascii ''aHR0cHM6Ly9leGFtcGxlLmNvbQ=='')
   \<and> decodeKey (ascii ''aHR0cHM6Ly9leGFtcGxlLmNvbQ=='') = Some (ascii ''https://example.com'')"
proof -
  have h: "list_all (\<lambda>c. c \<le> 255) (ascii ''https://example.com'')"
    by (simp add: ascii_def)
  have k: "encodeUrlSafe (ascii ''https://example.com'')
             = Inr (ascii ''aHR0cHM6Ly9leGFtcGxlLmNvbQ=='')"
    by (simp add: key_eval)
  from encodeUrlSafe_roundtrip [OF h] k h show ?thesis by auto
qed

text \<open>
  C8. The key encoder is deterministic and its output is safe: for every link \<^verbatim>\<open>btoa\<close>
  accepts there is exactly one key, and every character of the key is a base64 character,
  which a cache key may hold (a key is any string) and which a URI query may hold
  unescaped.
\<close>

theorem encodeUrlSafe_deterministic_safe:
  assumes "list_all (\<lambda>c. c \<le> 255) u"
  shows "\<exists>k. encodeUrlSafe u = Inr k \<and> (\<forall>k'. encodeUrlSafe u = Inr k' \<longrightarrow> k' = k)
           \<and> list_all (\<lambda>c. isBase64Char c \<and> uriQueryChar c) k"
proof -
  have "list_all isBase64Char (base64Encode (map unat u))"
    using assms by (intro base64Encode_chars bytes_of_latin1)
  then have "list_all (\<lambda>c. isBase64Char c \<and> uriQueryChar c) (base64Encode (map unat u))"
    by (simp add: list_all_iff isBase64Char_query)
  then show ?thesis
    using encodeUrlSafe_eq [OF assms] by simp
qed

theorem encodeUrlSafe_deterministic_safe_witness:
  "list_all (\<lambda>c. c \<le> 255) (ascii ''http://a.io/?q=>>>???'')
   \<and> encodeUrlSafe (ascii ''http://a.io/?q=>>>???'') = Inr (ascii ''aHR0cDovL2EuaW8vP3E9Pj4+Pz8/'')
   \<and> list_all (\<lambda>c. isBase64Char c \<and> uriQueryChar c) (ascii ''aHR0cDovL2EuaW8vP3E9Pj4+Pz8/'')"
proof -
  have h: "list_all (\<lambda>c. c \<le> 255) (ascii ''http://a.io/?q=>>>???'')"
    by (simp add: ascii_def)
  have k: "encodeUrlSafe (ascii ''http://a.io/?q=>>>???'')
             = Inr (ascii ''aHR0cDovL2EuaW8vP3E9Pj4+Pz8/'')"
    by (simp add: key_eval)
  from encodeUrlSafe_deterministic_safe [OF h] k h show ?thesis by auto
qed

section \<open>The image URL\<close>

lemma startsWith_Cons:
  "startsWith s (c # p) = (case s of [] \<Rightarrow> False | d # t \<Rightarrow> d = c \<and> startsWith t p)"
  by (cases s) (auto simp: startsWith_def)

lemma startsWith_Nil: "startsWith s []"
  by (simp add: startsWith_def)

text \<open>
  C9. The image URL repair, for every metadata record with an image: an image starting
  with \<^verbatim>\<open>http\<close> or \<^verbatim>\<open>www\<close> is returned unchanged; one starting with \<^verbatim>\<open>//www\<close> gives
  \<^verbatim>\<open>https://\<close> followed by the image without its first two characters; one starting
  with \<^verbatim>\<open>/yts/\<close> gives \<^verbatim>\<open>'https://' + p.source + image\<close>; any other image gives
  \<^verbatim>\<open>undefined\<close>.
\<close>

theorem getSanitizedImageUrl_cases:
  assumes "og_image p = Some img"
  shows "(startsWith img (ascii ''http'') \<or> startsWith img (ascii ''www'')
            \<longrightarrow> getSanitizedImageUrl p = Inr (Some img))
       \<and> (startsWith img (ascii ''//www'')
            \<longrightarrow> getSanitizedImageUrl p = Inr (Some (ascii ''https://'' @ drop 2 img)))
       \<and> (startsWith img (ascii ''/yts/'')
            \<longrightarrow> getSanitizedImageUrl p
                  = Inr (Some (ascii ''https://'' @ toString (source p) @ img)))
       \<and> (\<not> startsWith img (ascii ''http'') \<and> \<not> startsWith img (ascii ''www'')
          \<and> \<not> startsWith img (ascii ''//www'') \<and> \<not> startsWith img (ascii ''/yts/'')
            \<longrightarrow> getSanitizedImageUrl p = Inr None)"
  using assms
  by (auto simp: getSanitizedImageUrl_def slice_def ascii_def startsWith_Cons startsWith_Nil
      split: list.splits)

theorem getSanitizedImageUrl_cases_witness:
  "getSanitizedImageUrl (exampleResp\<lparr>og_image := Some (ascii ''http://a.io/i.png'')\<rparr>)
     = Inr (Some (ascii ''http://a.io/i.png''))
   \<and> getSanitizedImageUrl (exampleResp\<lparr>og_image := Some (ascii ''www.a.io/i.png'')\<rparr>)
     = Inr (Some (ascii ''www.a.io/i.png''))
   \<and> getSanitizedImageUrl (exampleResp\<lparr>og_image := Some (ascii ''//www.a.io/i.png'')\<rparr>)
     = Inr (Some (ascii ''https://www.a.io/i.png''))
   \<and> getSanitizedImageUrl
       (exampleResp\<lparr>og_image := Some (ascii ''/yts/i.png''), source := Some (ascii ''a.io'')\<rparr>)
     = Inr (Some (ascii ''https://a.io/yts/i.png''))
   \<and> getSanitizedImageUrl (exampleResp\<lparr>og_image := Some (ascii ''/yts/i.png'')\<rparr>)
     = Inr (Some (ascii ''https://undefined/yts/i.png''))
   \<and> getSanitizedImageUrl (exampleResp\<lparr>og_image := Some (ascii ''/img/i.png'')\<rparr>) = Inr None"
proof -
  have sw: "startsWith (ascii ''http://a.io/i.png'') (ascii ''http'')"
    "startsWith (ascii ''www.a.io/i.png'') (ascii ''www'')"
    "startsWith (ascii ''//www.a.io/i.png'') (ascii ''//www'')"
    "startsWith (ascii ''/yts/i.png'') (ascii ''/yts/'')"
    "\<not> startsWith (ascii ''/img/i.png'') (ascii ''http'')"
    "\<not> startsWith (ascii ''/img/i.png'') (ascii ''www'')"
    "\<not> startsWith (ascii ''/img/i.png'') (ascii ''//www'')"
    "\<not> startsWith (ascii ''/img/i.png'') (ascii ''/yts/'')"
    by (simp_all add: startsWith_def ascii_def)
  note c = getSanitizedImageUrl_cases
  from sw
    c [of "exampleResp\<lparr>og_image := Some (ascii ''http://a.io/i.png'')\<rparr>" "ascii ''http://a.io/i.png''"]
    c [of "exampleResp\<lparr>og_image := Some (ascii ''www.a.io/i.png'')\<rparr>" "ascii ''www.a.io/i.png''"]
    c [of "exampleResp\<lparr>og_image := Some (ascii ''//www.a.io/i.png'')\<rparr>"
          "ascii ''//www.a.io/i.png''"]
    c [of "exampleResp\<lparr>og_image := Some (ascii ''/yts/i.png''), source := Some (ascii ''a.io'')\<rparr>"
          "ascii ''/yts/i.png''"]
    c [of "exampleResp\<lparr>og_image := Some (ascii ''/yts/i.png'')\<rparr>" "ascii ''/yts/i.png''"]
    c [of "exampleResp\<lparr>og_image := Some (ascii ''/img/i.png'')\<rparr>" "ascii ''/img/i.png''"]
  show ?thesis
    by (simp add: exampleResp_def toString_def) (simp add: ascii_def)
qed

section \<open>The link extractor\<close>

text \<open>
  The backtracking matcher finds exactly what the pattern accepts: the positions it
  returns are the positions the pattern can end at. So the global search returns only
  occurrences of the pattern, and returns none only when there is none.
\<close>

lemma parseStringForLinks_Some:
  "parseStringForLinks (Some t) = Inr (matchGlobal urlPattern None t)"
  by (simp add: parseStringForLinks_def stringMatch_def split: list.splits)

lemma matches_urlPattern_Nil: "matches urlPattern (p, []) = []"
  by (simp add: urlPattern_def litIgnoreCase_def)

lemma lastOr_Nil: "lastOr p [] = p"
  by (simp add: lastOr_def)

lemma lastOr_Cons: "lastOr p (c # w) = lastOr (Some c) w"
  by (simp add: lastOr_def)

lemma lastOr_append: "lastOr p (v @ w) = lastOr (lastOr p v) w"
  by (simp add: lastOr_def)

lemma repeatChars_iff:
  "(q, s') \<in> set (repeatChars P mn mx p s) \<longleftrightarrow>
     (\<exists>w. s = w @ s' \<and> list_all P w \<and> mn \<le> length w
          \<and> (case mx of None \<Rightarrow> True | Some n \<Rightarrow> length w \<le> n) \<and> q = lastOr p w)"
proof (induction s arbitrary: mn mx p)
  case Nil
  show ?case by (auto simp: lastOr_Nil split: option.splits)
next
  case (Cons c cs)
  show ?case (is "?L \<longleftrightarrow> ?R")
  proof
    assume ?L
    then consider
      (more) "P c" "mx \<noteq> Some 0"
        "(q, s') \<in> set (repeatChars P (mn - 1) (map_option (\<lambda>n. n - 1) mx) (Some c) cs)"
      | (stop) "mn = 0" "q = p" "s' = c # cs"
      by (auto split: if_splits)
    then show ?R
    proof cases
      case more
      from more(3) obtain w where w: "cs = w @ s'" "list_all P w" "mn - 1 \<le> length w"
        "case map_option (\<lambda>n. n - 1) mx of None \<Rightarrow> True | Some n \<Rightarrow> length w \<le> n"
        "q = lastOr (Some c) w"
        unfolding Cons.IH by blast
      have "c # cs = (c # w) @ s'" using w(1) by simp
      moreover have "list_all P (c # w)" using more(1) w(2) by simp
      moreover have "mn \<le> length (c # w)" using w(3) by simp
      moreover have "case mx of None \<Rightarrow> True | Some n \<Rightarrow> length (c # w) \<le> n"
        using w(4) more(2) by (cases mx) auto
      moreover have "q = lastOr p (c # w)" using w(5) by (simp add: lastOr_Cons)
      ultimately show ?thesis by blast
    next
      case stop
      then show ?thesis by (intro exI [of _ "[]"]) (auto simp: lastOr_Nil split: option.splits)
    qed
  next
    assume ?R
    then obtain w where w: "c # cs = w @ s'" "list_all P w" "mn \<le> length w"
      "case mx of None \<Rightarrow> True | Some n \<Rightarrow> length w \<le> n" "q = lastOr p w"
      by blast
    show ?L
    proof (cases w)
      case Nil
      with w have "s' = c # cs" "mn = 0" "q = p" by (simp_all add: lastOr_Nil)
      then show ?thesis by simp
    next
      case (Cons d w')
      with w have c: "d = c" "cs = w' @ s'" "P c" "list_all P w'" "mn - 1 \<le> length w'"
        "q = lastOr (Some c) w'"
        by (auto simp: lastOr_Cons)
      have mx: "mx \<noteq> Some 0" using w(4) Cons by (cases mx) auto
      have "case map_option (\<lambda>n. n - 1) mx of None \<Rightarrow> True | Some n \<Rightarrow> length w' \<le> n"
        using w(4) Cons by (cases mx) auto
      with c have "(q, s') \<in> set (repeatChars P (mn - 1) (map_option (\<lambda>n. n - 1) mx) (Some c) cs)"
        unfolding Cons.IH by blast
      with c(3) mx show ?thesis by simp
    qed
  qed
qed

lemma matches_iff: "y \<in> set (matches r x) \<longleftrightarrow> accepts r x y"
proof (induction r arbitrary: x y)
  case Epsilon
  show ?case by auto
next
  case (Chars P)
  show ?case by (cases x; cases y) (auto split: list.splits)
next
  case (Repeat mn mx P)
  show ?case by (cases x; cases y) (simp add: repeatChars_iff)
next
  case (Optional r)
  then show ?case by auto
next
  case (Seq r1 r2)
  show ?case by (simp add: Seq Bex_def)
next
  case WordBoundary
  show ?case by (cases x; cases y) auto
qed

lemma accepts_suffix:
  "accepts r (p, s) (q, s') \<Longrightarrow> \<exists>w. s = w @ s' \<and> q = lastOr p w"
proof (induction r arbitrary: p s q s')
  case Epsilon
  then show ?case by (auto simp: lastOr_Nil)
next
  case (Chars P)
  then obtain c where "s = c # s'" "q = Some c" by auto
  then show ?case by (intro exI [of _ "[c]"]) (simp add: lastOr_def)
next
  case (Repeat mn mx P)
  then show ?case unfolding accepts.simps fst_conv snd_conv by blast
next
  case (Optional r)
  then show ?case by (auto simp: lastOr_Nil)
next
  case (Seq r1 r2)
  from Seq.prems obtain z where z: "accepts r1 (p, s) z" "accepts r2 z (q, s')" by auto
  obtain p1 s1 where z1: "z = (p1, s1)" by (cases z)
  from Seq.IH(1) [OF z(1) [unfolded z1]] obtain v where v: "s = v @ s1" "p1 = lastOr p v" by blast
  from Seq.IH(2) [OF z(2) [unfolded z1]] obtain w where w: "s1 = w @ s'" "q = lastOr p1 w" by blast
  from v w have "s = (v @ w) @ s'" "q = lastOr p (v @ w)" by (simp_all add: lastOr_append)
  then show ?case by blast
next
  case WordBoundary
  then show ?case by (auto simp: lastOr_Nil)
qed

lemma matches_hd:
  assumes "matches r (p, s) = (q, rest) # ys"
  shows "\<exists>w. s = w @ rest \<and> q = lastOr p w \<and> accepts r (p, w @ rest) (q, rest)"
proof -
  have a: "accepts r (p, s) (q, rest)"
    using assms matches_iff [of "(q, rest)" r "(p, s)"] by simp
  from accepts_suffix [OF a] obtain w where "s = w @ rest" "q = lastOr p w" by blast
  with a show ?thesis by blast
qed

lemma occursIn_here:
  "accepts r (p, m @ post) (q, post) \<Longrightarrow> occursIn r p (m @ post) m"
  unfolding occursIn_def by (intro exI [of _ "[]"] exI [of _ post] exI [of _ q]) (simp add: lastOr_Nil)

lemma occursIn_later:
  assumes "occursIn r (lastOr p v) s m"
  shows "occursIn r p (v @ s) m"
proof -
  from assms obtain pre post q where
    "s = pre @ m @ post" "accepts r (lastOr (lastOr p v) pre, m @ post) (q, post)"
    unfolding occursIn_def by blast
  then have "v @ s = (v @ pre) @ m @ post" "accepts r (lastOr p (v @ pre), m @ post) (q, post)"
    by (simp_all add: lastOr_append)
  then show ?thesis unfolding occursIn_def by blast
qed

lemma matchGlobal_sound:
  "m \<in> set (matchGlobal r p s) \<Longrightarrow> occursIn r p s m"
proof (induction r p s rule: matchGlobal.induct)
  case (1 r p)
  show ?case
  proof (cases "matches r (p, [])")
    case Nil
    with "1" show ?thesis by simp
  next
    case (Cons y ys)
    obtain q rest where y: "y = (q, rest)" by (cases y)
    from "1" Cons have m: "m = []" by simp
    from matches_hd [OF Cons [unfolded y]] have "accepts r (p, []) (q, [])" by auto
    then show ?thesis using occursIn_here [of r p "[]" "[]" q] m by simp
  qed
next
  case (2 r p c cs)
  show ?case
  proof (cases "matches r (p, c # cs)")
    case Nil
    with "2.prems" have "m \<in> set (matchGlobal r (Some c) cs)" by simp
    from "2.IH"(1) [OF Nil this] have "occursIn r (lastOr p [c]) cs m"
      by (simp add: lastOr_def)
    from occursIn_later [OF this] show ?thesis by simp
  next
    case (Cons y ys)
    obtain q rest where y: "y = (q, rest)" by (cases y)
    from matches_hd [OF Cons [unfolded y]] obtain w where
      w: "c # cs = w @ rest" "q = lastOr p w" "accepts r (p, w @ rest) (q, rest)" by blast
    show ?thesis
    proof (cases "length rest < length (c # cs)")
      case True
      have tk: "take (length (c # cs) - length rest) (c # cs) = w"
        using w(1) by simp
      from "2.prems" Cons y True tk
      consider "m = w" | "m \<in> set (matchGlobal r q rest)"
        by auto
      then show ?thesis
      proof cases
        case 1
        with occursIn_here [OF w(3)] w(1) show ?thesis by simp
      next
        case 2
        from "2.IH"(2) [OF Cons y [symmetric] True 2] have "occursIn r (lastOr p w) rest m"
          by (simp add: w(2))
        from occursIn_later [OF this] w(1) show ?thesis by simp
      qed
    next
      case False
      with w(1) have wn: "w = []" "rest = c # cs" by auto
      from "2.prems" Cons y False
      consider "m = []" | "m \<in> set (matchGlobal r (Some c) cs)"
        by auto
      then show ?thesis
      proof cases
        case 1
        with occursIn_here [OF w(3)] wn show ?thesis by simp
      next
        case 2
        from "2.IH"(3) [OF Cons y [symmetric] False 2] have "occursIn r (lastOr p [c]) cs m"
          by (simp add: lastOr_def)
        from occursIn_later [OF this] show ?thesis by simp
      qed
    qed
  qed
qed

lemma matchGlobal_complete:
  "accepts r (lastOr p pre, w @ post) (q, post) \<Longrightarrow> matchGlobal r p (pre @ w @ post) \<noteq> []"
proof (induction pre arbitrary: p)
  case Nil
  then have "(q, post) \<in> set (matches r (p, w @ post))"
    by (simp add: matches_iff lastOr_Nil)
  then have ne: "matches r (p, w @ post) \<noteq> []" by auto
  show ?case
  proof (cases "w @ post")
    case Nil
    with ne show ?thesis by (auto split: list.splits)
  next
    case (Cons c cs)
    with ne show ?thesis by (auto split: list.splits)
  qed
next
  case (Cons c pre)
  then have "accepts r (lastOr (Some c) pre, w @ post) (q, post)"
    by (simp add: lastOr_Cons)
  from Cons.IH [OF this] show ?case
    by (auto split: list.splits)
qed

lemma matchGlobal_empty_iff:
  "matchGlobal r None t = [] \<longleftrightarrow> \<not> containsMatch r t"
proof
  assume e: "matchGlobal r None t = []"
  show "\<not> containsMatch r t"
  proof
    assume "containsMatch r t"
    then obtain pre w post q where "t = pre @ w @ post"
      "accepts r (lastOr None pre, w @ post) (q, post)"
      unfolding containsMatch_def by blast
    with matchGlobal_complete [of r None pre w post q] e show False by simp
  qed
next
  assume n: "\<not> containsMatch r t"
  show "matchGlobal r None t = []"
  proof (rule ccontr)
    assume "matchGlobal r None t \<noteq> []"
    then obtain m where "m \<in> set (matchGlobal r None t)" by (cases "matchGlobal r None t") auto
    from matchGlobal_sound [OF this] have "containsMatch r t"
      unfolding occursIn_def containsMatch_def by blast
    with n show False by simp
  qed
qed

text \<open>
  C6 (as amended). The extractor is total on strings: for every string it returns a
  sequence and throws nothing; every link it returns occurs in the string as a match of
  the URL pattern; and the sequence is empty exactly when the string has no substring
  matching the pattern, as for the empty string. An absent text never reaches the
  extractor: the guard of the trigger skips the extraction for an absent or empty text,
  which then contributes no link.
\<close>

theorem parseStringForLinks_total_on_strings:
  "(\<exists>found. parseStringForLinks (Some t) = Inr found
       \<and> (\<forall>m \<in> set found. occursIn urlPattern None t m)
       \<and> (found = [] \<longleftrightarrow> \<not> containsMatch urlPattern t))
   \<and> (t = [] \<longrightarrow> parseStringForLinks (Some t) = Inr [])
   \<and> (\<not> truthy (parseForLinksStr s) \<longrightarrow> scanText s = Inr s)"
proof (intro conjI impI)
  show "\<exists>found. parseStringForLinks (Some t) = Inr found
       \<and> (\<forall>m \<in> set found. occursIn urlPattern None t m)
       \<and> (found = [] \<longleftrightarrow> \<not> containsMatch urlPattern t)"
    by (simp add: parseStringForLinks_Some matchGlobal_sound matchGlobal_empty_iff)
next
  assume "t = []"
  then show "parseStringForLinks (Some t) = Inr []"
    by (simp add: parseStringForLinks_Some matches_urlPattern_Nil)
next
  assume "\<not> truthy (parseForLinksStr s)"
  then show "scanText s = Inr s"
    by (simp add: scanText_def)
qed

theorem parseStringForLinks_total_on_strings_witness:
  "\<not> containsMatch urlPattern (ascii ''no links in here'')
   \<and> parseStringForLinks (Some (ascii ''no links in here'')) = Inr []
   \<and> parseStringForLinks (Some []) = Inr []
   \<and> \<not> truthy (parseForLinksStr (newComponent Map.empty :: jsstring component))
   \<and> scanText (newComponent Map.empty :: jsstring component) = Inr (newComponent Map.empty)"
proof -
  have mg: "matchGlobal urlPattern None (ascii ''no links in here'') = []"
    by (simp add: urlPattern_def lit_def litIgnoreCase_def ascii_def)
  then have nc: "\<not> containsMatch urlPattern (ascii ''no links in here'')"
    by (simp add: matchGlobal_empty_iff)
  have g: "\<not> truthy (parseForLinksStr (newComponent Map.empty :: jsstring component))"
    by (simp add: newComponent_def truthy_def)
  from parseStringForLinks_total_on_strings
        [of "ascii ''no links in here''" "newComponent Map.empty :: jsstring component"]
      parseStringForLinks_total_on_strings [of "[]" "newComponent Map.empty :: jsstring component"]
      nc g
  show ?thesis by auto
qed

text \<open>
  C6 as stated fails on the absent input: \<^verbatim>\<open>parseStringForLinks\<close> reads \<^verbatim>\<open>msg.match\<close>,
  which throws when \<^verbatim>\<open>msg\<close> is undefined, instead of returning the empty sequence.
\<close>

theorem parseStringForLinks_undefined_counterexample:
  "parseStringForLinks None = Inl TypeError \<and> parseStringForLinks None \<noteq> Inr []"
  by (simp add: parseStringForLinks_def)

section \<open>The trigger\<close>

text \<open>
  C1 (as amended). A trigger with no API route (undefined or empty) or no fetch function
  throws a configuration error. The trigger has emptied the preview list (and the
  scanned links) before it checks: the list the caller sees afterwards is empty, whatever
  it held before. Nothing else changes: no fetch is made, the cache and the pending set
  are as they were.
\<close>

theorem init_configuration_error:
  assumes "\<not> truthy (apiRoute s) \<or> getApiEndpoint s = None"
  shows "\<exists>e. isConfigurationError e
           \<and> init s = (Some e, s\<lparr>scannedLinks := [], previews := []\<rparr>)"
  using assms
  by (auto simp: init_def checkInputParameters_def isConfigurationError_def Let_def
      split: option.splits)

theorem init_configuration_error_witness:
  "\<not> truthy (apiRoute ((newComponent Map.empty :: jsstring component)\<lparr>previews := [exampleResp]\<rparr>))
   \<and> init ((newComponent Map.empty :: jsstring component)\<lparr>previews := [exampleResp]\<rparr>)
     = (Some MissingApiRoute, newComponent Map.empty)"
proof -
  have h: "\<not> truthy (apiRoute ((newComponent Map.empty :: jsstring component)
                                \<lparr>previews := [exampleResp]\<rparr>))"
    by (simp add: newComponent_def truthy_def)
  from init_configuration_error [of "(newComponent Map.empty :: jsstring component)
                                \<lparr>previews := [exampleResp]\<rparr>"] h
  show ?thesis
    by (auto simp: newComponent_def isConfigurationError_def init_def checkInputParameters_def)
qed

text \<open>
  C1 as stated fails: a component showing one preview loses it when a trigger finds no
  API route.
\<close>

theorem init_configuration_error_counterexample:
  "previews ((newComponent Map.empty :: jsstring component)\<lparr>previews := [exampleResp]\<rparr>) \<noteq> []
   \<and> apiRoute ((newComponent Map.empty :: jsstring component)\<lparr>previews := [exampleResp]\<rparr>) = None
   \<and> fst (init ((newComponent Map.empty :: jsstring component)\<lparr>previews := [exampleResp]\<rparr>))
       = Some MissingApiRoute
   \<and> previews (snd (init ((newComponent Map.empty :: jsstring component)
                            \<lparr>previews := [exampleResp]\<rparr>)))
       \<noteq> previews ((newComponent Map.empty :: jsstring component)\<lparr>previews := [exampleResp]\<rparr>)"
  by (simp add: newComponent_def init_def checkInputParameters_def truthy_def)

section \<open>The loop over the candidate links\<close>

text \<open>
  What a delivered response, a subscription and the loop do to the state. The loop leaves
  the inputs, the scanned links and the behaviour of the observables alone, and only adds
  to the subscriptions and the previews.
\<close>

lemma callback_eq:
  "callback k resp s =
     s\<lparr>cacheSvc := (cacheSvc s)(k \<mapsto> resp), loadingMgr := loadingMgr s - {k},
       previews := previews s @ [resp]\<rparr>"
  by (simp add: callback_def runSteps_def callbackSteps_def updateCacheItem_def removeTask_def)

lemma deliver_eq:
  "deliver k resp s =
     s\<lparr>cacheSvc := (cacheSvc s)(k \<mapsto> resp), loadingMgr := loadingMgr s - {k},
       previews := previews s @ [resp], completions := completions s @ [(k, resp)]\<rparr>"
  by (simp add: deliver_def callback_eq)

lemma fold_deliver_snoc:
  "fold (deliver k) (rs @ [r]) s =
     s\<lparr>cacheSvc := (cacheSvc s)(k \<mapsto> r), loadingMgr := loadingMgr s - {k},
       previews := previews s @ rs @ [r],
       completions := completions s @ map (Pair k) (rs @ [r])\<rparr>"
proof (induction rs arbitrary: s)
  case Nil
  show ?case by (rule component.equality) (simp_all add: deliver_eq fun_eq_iff)
next
  case (Cons a rs)
  have "fold (deliver k) ((a # rs) @ [r]) s = fold (deliver k) (rs @ [r]) (deliver k a s)"
    by simp
  also note Cons.IH
  finally have e: "fold (deliver k) ((a # rs) @ [r]) s =
     (deliver k a s)\<lparr>cacheSvc := (cacheSvc (deliver k a s))(k \<mapsto> r),
       loadingMgr := loadingMgr (deliver k a s) - {k},
       previews := previews (deliver k a s) @ rs @ [r],
       completions := completions (deliver k a s) @ map (Pair k) (rs @ [r])\<rparr>" .
  show ?case unfolding e by (rule component.equality) (simp_all add: deliver_eq fun_eq_iff)
qed

lemma fold_deliver:
  "fold (deliver k) rs s =
     s\<lparr>cacheSvc := (if rs = [] then cacheSvc s else (cacheSvc s)(k \<mapsto> last rs)),
       loadingMgr := (if rs = [] then loadingMgr s else loadingMgr s - {k}),
       previews := previews s @ rs,
       completions := completions s @ map (Pair k) rs\<rparr>"
proof (cases rs rule: rev_cases)
  case Nil
  then show ?thesis by simp
next
  case (snoc ys y)
  show ?thesis unfolding snoc fold_deliver_snoc by simp
qed

lemma subscribe_eq:
  "subscribe obs k s =
     s\<lparr>subscriptions := subscriptions s @ [(obs, k)],
       cacheSvc := (if syncEmits s (length (subscriptions s)) obs = [] then cacheSvc s
                    else (cacheSvc s)(k \<mapsto> last (syncEmits s (length (subscriptions s)) obs))),
       loadingMgr := (if syncEmits s (length (subscriptions s)) obs = [] then loadingMgr s
                      else loadingMgr s - {k}),
       previews := previews s @ syncEmits s (length (subscriptions s)) obs,
       completions := completions s @ map (Pair k) (syncEmits s (length (subscriptions s)) obs)\<rparr>"
  by (simp add: subscribe_def fold_deliver)

lemma subscribe_frame:
  "links (subscribe obs k s) = links s"
  "parseForLinksStr (subscribe obs k s) = parseForLinksStr s"
  "getApiEndpoint (subscribe obs k s) = getApiEndpoint s"
  "apiRoute (subscribe obs k s) = apiRoute s"
  "queryParamName (subscribe obs k s) = queryParamName s"
  "useCache (subscribe obs k s) = useCache s"
  "scannedLinks (subscribe obs k s) = scannedLinks s"
  "syncEmits (subscribe obs k s) = syncEmits s"
  "subscriptions (subscribe obs k s) = subscriptions s @ [(obs, k)]"
  "previews (subscribe obs k s) = previews s @ syncEmits s (length (subscriptions s)) obs"
  by (simp_all add: subscribe_eq)


lemma forLinks_bad:
  "encodeUrlSafe l = Inl e \<Longrightarrow> forLinks s (l # rest) = (Some e, s)"
  by simp

lemma forLinks_hit:
  "encodeUrlSafe l = Inr k \<Longrightarrow> useCache s \<Longrightarrow> cacheSvc s k = Some item \<Longrightarrow>
     forLinks s (l # rest) = forLinks (s\<lparr>previews := previews s @ [item]\<rparr>) rest"
  by (simp add: getCacheItem_def)

lemma forLinks_miss:
  "encodeUrlSafe l = Inr k \<Longrightarrow> \<not> cacheHit s k \<Longrightarrow> getApiEndpoint s = Some f \<Longrightarrow>
     forLinks s (l # rest) =
       forLinks (subscribe (f (requestUrlOf s k)) k (s\<lparr>loadingMgr := insert k (loadingMgr s)\<rparr>))
         rest"
  by (auto simp: cacheHit_def addTask_def Let_def split: option.splits bool.splits)

lemma cacheHit_cases:
  obtains (hit) item where "useCache s" "cacheSvc s k = Some item" | (miss) "\<not> cacheHit s k"
  by (cases "cacheSvc s k") (auto simp: cacheHit_def getCacheItem_def)

lemma forLinks_preserves:
  assumes "\<And>t item. P t \<Longrightarrow> P (t\<lparr>previews := previews t @ [item]\<rparr>)"
    and "\<And>t k. P t \<Longrightarrow> P (t\<lparr>loadingMgr := addTask (loadingMgr t) k\<rparr>)"
    and "\<And>t obs k. P t \<Longrightarrow> P (subscribe obs k t)"
  shows "P s \<Longrightarrow> P (snd (forLinks s ls))"
proof (induction ls arbitrary: s)
  case Nil
  then show ?case by simp
next
  case (Cons l ls)
  show ?case
  proof (cases "encodeUrlSafe l")
    case (Inl e)
    with Cons.prems show ?thesis by simp
  next
    case (Inr k)
    show ?thesis
    proof (cases "useCache s \<and> getCacheItem (cacheSvc s) k \<noteq> None")
      case True
      then obtain item where "getCacheItem (cacheSvc s) k = Some item" by auto
      with True Inr Cons.IH [OF assms(1) [OF Cons.prems]] show ?thesis by simp
    next
      case False
      let ?s = "s\<lparr>loadingMgr := addTask (loadingMgr s) k\<rparr>"
      have P1: "P ?s" by (rule assms(2) [OF Cons.prems])
      show ?thesis
      proof (cases "getApiEndpoint s")
        case None
        with False Inr P1 show ?thesis
          by (auto simp: Let_def split: option.splits bool.splits)
      next
        case (Some f)
        have "forLinks s (l # ls) = forLinks (subscribe (f (requestUrlOf s k)) k ?s) ls"
          using False Inr Some by (auto simp: Let_def split: option.splits bool.splits)
        with Cons.IH [OF assms(3) [OF P1]] show ?thesis by simp
      qed
    qed
  qed
qed

lemma forLinks_frame:
  "links (snd (forLinks s ls)) = links s"
  "parseForLinksStr (snd (forLinks s ls)) = parseForLinksStr s"
  "getApiEndpoint (snd (forLinks s ls)) = getApiEndpoint s"
  "apiRoute (snd (forLinks s ls)) = apiRoute s"
  "queryParamName (snd (forLinks s ls)) = queryParamName s"
  "useCache (snd (forLinks s ls)) = useCache s"
  "scannedLinks (snd (forLinks s ls)) = scannedLinks s"
  "syncEmits (snd (forLinks s ls)) = syncEmits s"
  by (rule forLinks_preserves [where P = "\<lambda>t. links t = links s"],
      simp_all add: subscribe_frame)
    (rule forLinks_preserves [where P = "\<lambda>t. parseForLinksStr t = parseForLinksStr s"],
      simp_all add: subscribe_frame,
     rule forLinks_preserves [where P = "\<lambda>t. getApiEndpoint t = getApiEndpoint s"],
      simp_all add: subscribe_frame,
     rule forLinks_preserves [where P = "\<lambda>t. apiRoute t = apiRoute s"],
      simp_all add: subscribe_frame,
     rule forLinks_preserves [where P = "\<lambda>t. queryParamName t = queryParamName s"],
      simp_all add: subscribe_frame,
     rule forLinks_preserves [where P = "\<lambda>t. useCache t = useCache s"],
      simp_all add: subscribe_frame,
     rule forLinks_preserves [where P = "\<lambda>t. scannedLinks t = scannedLinks s"],
      simp_all add: subscribe_frame,
     rule forLinks_preserves [where P = "\<lambda>t. syncEmits t = syncEmits s"],
      simp_all add: subscribe_frame)




lemma forLinks_abort:
  assumes "getApiEndpoint s = Some f" and "map encodeUrlSafe pre = map Inr ks"
    and "encodeUrlSafe bad = Inl e"
  shows "forLinks s (pre @ bad # post) = (Some e, snd (forLinks s pre))
       \<and> fst (forLinks s pre) = None"
  using assms
proof (induction pre arbitrary: s ks)
  case Nil
  then show ?case by simp
next
  case (Cons l ls)
  then obtain k ks' where ks: "ks = k # ks'" and k: "encodeUrlSafe l = Inr k"
    and rest: "map encodeUrlSafe ls = map Inr ks'"
    by (cases ks) auto
  show ?case
  proof (cases rule: cacheHit_cases [of s k])
    case (hit item)
    let ?s = "s\<lparr>previews := previews s @ [item]\<rparr>"
    have gf: "getApiEndpoint ?s = Some f" using Cons.prems(1) by simp
    from Cons.IH [OF gf rest Cons.prems(3)] show ?thesis
      by (simp only: append_Cons forLinks_hit [OF k hit])
  next
    case miss
    let ?s = "subscribe (f (requestUrlOf s k)) k (s\<lparr>loadingMgr := insert k (loadingMgr s)\<rparr>)"
    have gf: "getApiEndpoint ?s = Some f" using Cons.prems(1) by (simp add: subscribe_frame)
    from Cons.IH [OF gf rest Cons.prems(3)] show ?thesis
      by (simp only: append_Cons forLinks_miss [OF k miss Cons.prems(1)])
  qed
qed





section \<open>The trigger and its loop\<close>

lemma checkInputParameters_reset:
  "checkInputParameters (s\<lparr>scannedLinks := sl, previews := pv\<rparr>) = checkInputParameters s"
  by (simp add: checkInputParameters_def)

lemma reset_comm:
  "(s :: 'o component)\<lparr>previews := pv, scannedLinks := sl\<rparr> = s\<lparr>scannedLinks := sl, previews := pv\<rparr>"
  by simp

lemma init_eq:
  assumes "checkInputParameters s = None"
    and "candidateLinks (parseForLinksStr s) (links s) = Inr cand"
  shows "init s = forLinks (s\<lparr>scannedLinks := cand, previews := []\<rparr>) cand"
proof (cases "parseForLinksStr s")
  case None
  with assms show ?thesis
    by (cases "links s")
      (auto simp: init_def scanText_def scanLinks_def truthy_def candidateLinks_def Let_def
        checkInputParameters_reset reset_comm simp del: forLinks.simps)
next
  case (Some t)
  with assms show ?thesis
    by (cases "links s")
      (auto simp: init_def scanText_def scanLinks_def truthy_def candidateLinks_def Let_def
        parseStringForLinks_Some matches_urlPattern_Nil checkInputParameters_reset reset_comm
        simp del: forLinks.simps)
qed

lemma candidateLinks_total: "\<exists>cand. candidateLinks str explicit = Inr cand"
  by (cases str) (simp_all add: candidateLinks_def parseStringForLinks_Some)

lemma init_error:
  "checkInputParameters s = Some e \<Longrightarrow> init s = (Some e, s\<lparr>scannedLinks := [], previews := []\<rparr>)"
  by (simp add: init_def checkInputParameters_reset)

lemma init_cases:
  obtains (error) e where "checkInputParameters s = Some e"
      "init s = (Some e, s\<lparr>scannedLinks := [], previews := []\<rparr>)"
  | (loop) cand where "checkInputParameters s = None"
      "candidateLinks (parseForLinksStr s) (links s) = Inr cand"
      "init s = forLinks (s\<lparr>scannedLinks := cand, previews := []\<rparr>) cand"
proof (cases "checkInputParameters s")
  case None
  obtain cand where c: "candidateLinks (parseForLinksStr s) (links s) = Inr cand"
    using candidateLinks_total by blast
  from loop [OF None c init_eq [OF None c]] show ?thesis .
next
  case (Some e)
  from error [OF Some init_error [OF Some]] show ?thesis .
qed

lemma init_abort:
  assumes ok: "checkInputParameters s = None" and f: "getApiEndpoint s = Some f"
    and cand: "candidateLinks (parseForLinksStr s) (links s) = Inr (pre @ bad # post)"
    and ks: "map encodeUrlSafe pre = map Inr ks"
    and bad: "encodeUrlSafe bad = Inl e"
  shows "init s =
           (Some e, snd (forLinks (s\<lparr>scannedLinks := pre @ bad # post, previews := []\<rparr>) pre))
       \<and> fst (forLinks (s\<lparr>scannedLinks := pre @ bad # post, previews := []\<rparr>) pre) = None"
proof -
  let ?s = "s\<lparr>scannedLinks := pre @ bad # post, previews := []\<rparr>"
  have ep: "getApiEndpoint ?s = Some f" using f by simp
  from forLinks_abort [OF ep ks bad, of post] show ?thesis
    by (simp add: init_eq [OF ok cand] del: forLinks.simps)
qed



section \<open>The cache and the completed fetches\<close>

lemma latestFor_alt:
  "latestFor k log =
     (if filter (\<lambda>x. fst x = k) log = [] then None
      else Some (snd (last (filter (\<lambda>x. fst x = k) log))))"
  by (simp add: latestFor_def split: list.splits)

lemma latestFor_snoc:
  "latestFor k' (log @ [(k, r)]) = (if k' = k then Some r else latestFor k' log)"
  by (simp add: latestFor_alt)

lemma latestFor_mem: "x \<in> set log \<Longrightarrow> latestFor (fst x) log \<noteq> None"
  by (auto simp: latestFor_alt filter_empty_conv)

lemma cacheHoldsLatest_cong:
  "cacheSvc t = cacheSvc s \<Longrightarrow> completions t = completions s \<Longrightarrow>
     cacheHoldsLatest t = cacheHoldsLatest s"
  by (simp add: cacheHoldsLatest_def)

lemma cacheHoldsLatest_deliver:
  "cacheHoldsLatest s \<Longrightarrow> cacheHoldsLatest (deliver k r s)"
  by (auto simp: cacheHoldsLatest_def deliver_eq latestFor_snoc)

lemma cacheHoldsLatest_fold:
  "cacheHoldsLatest s \<Longrightarrow> cacheHoldsLatest (fold (deliver k) rs s)"
  by (induction rs arbitrary: s) (simp_all add: cacheHoldsLatest_deliver)

lemma cacheHoldsLatest_subscribe:
  assumes "cacheHoldsLatest s"
  shows "cacheHoldsLatest (subscribe obs k s)"
proof -
  have "cacheHoldsLatest (s\<lparr>subscriptions := subscriptions s @ [(obs, k)]\<rparr>)"
    using assms by (simp add: cacheHoldsLatest_def)
  then show ?thesis unfolding subscribe_def by (rule cacheHoldsLatest_fold)
qed

lemma cacheHoldsLatest_forLinks:
  "cacheHoldsLatest s \<Longrightarrow> cacheHoldsLatest (snd (forLinks s ls))"
  by (rule forLinks_preserves [where P = cacheHoldsLatest])
    (simp_all add: cacheHoldsLatest_subscribe, simp_all add: cacheHoldsLatest_def)

lemma cacheHoldsLatest_init:
  assumes "cacheHoldsLatest s"
  shows "cacheHoldsLatest (snd (init s))"
proof (cases rule: init_cases [of s])
  case (error e)
  with assms show ?thesis by (simp add: cacheHoldsLatest_def)
next
  case (loop cand)
  have "cacheHoldsLatest (s\<lparr>scannedLinks := cand, previews := []\<rparr>)"
    using assms by (simp add: cacheHoldsLatest_def)
  from cacheHoldsLatest_forLinks [OF this] loop(3) show ?thesis by simp
qed

lemma cacheHoldsLatest_step:
  assumes "cacheHoldsLatest s"
  shows "cacheHoldsLatest (step s e)"
proof (cases e)
  case (Changes i)
  have "cacheHoldsLatest (bindInputs i s)"
    using assms by (simp add: cacheHoldsLatest_def bindInputs_def)
  from cacheHoldsLatest_init [OF this] Changes show ?thesis by (simp add: ngOnChanges_def)
next
  case (Emits n resp)
  with assms show ?thesis by (simp add: cacheHoldsLatest_deliver)
qed

lemma cacheHoldsLatest_run:
  "cacheHoldsLatest s \<Longrightarrow> cacheHoldsLatest (run s evs)"
  by (induction evs arbitrary: s) (simp_all add: cacheHoldsLatest_step del: step.simps)

lemma cacheHoldsLatest_new: "cacheHoldsLatest (newComponent c)"
  by (simp add: cacheHoldsLatest_def newComponent_def)

section \<open>The examples, evaluated\<close>

lemma exampleKey_eq: "encodeUrlSafe exampleLink = Inr exampleKey"
  by (simp add: exampleLink_def exampleKey_def key_eval)

lemma badLink_fails: "encodeUrlSafe badLink = Inl InvalidCharacterError"
  by (rule encodeUrlSafe_fails) (simp add: badLink_def ascii_def)

lemma secondResp_differs: "secondResp \<noteq> exampleResp"
  by (simp add: secondResp_def exampleResp_def ascii_def)

lemmas trigger_eval =
  init_def ngOnChanges_def checkInputParameters_def truthy_def scanText_def scanLinks_def
  subscribe_def deliver_def callback_def runSteps_def callbackSteps_def updateCacheItem_def
  removeTask_def addTask_def getCacheItem_def requestUrlOf_def toString_def candidateLinks_def
  cacheHit_def exampleKey_eq badLink_fails

lemmas example_defs =
  exampleComponent_def bindInputs_def exampleInputs_def newComponent_def exampleRequest_def
  exampleKey_def ascii_def

lemma examplePending_eq:
  "examplePending =
     exampleComponent\<lparr>scannedLinks := [exampleLink], loadingMgr := {exampleKey},
       subscriptions := [(exampleRequest, exampleKey)]\<rparr>"
  by (simp add: examplePending_def trigger_eval example_defs)

lemma exampleCached_eq:
  "exampleCached =
     exampleComponent\<lparr>scannedLinks := [exampleLink], previews := [exampleResp],
       cacheSvc := [exampleKey \<mapsto> exampleResp],
       subscriptions := [(exampleRequest, exampleKey)],
       completions := [(exampleKey, exampleResp)]\<rparr>"
  by (simp add: exampleCached_def trigger_eval example_defs)

lemma exampleTwice_eq:
  "exampleTwice =
     exampleComponent\<lparr>links := Some [exampleLink, exampleLink],
       scannedLinks := [exampleLink, exampleLink], previews := [exampleResp, secondResp],
       cacheSvc := [exampleKey \<mapsto> secondResp],
       subscriptions := [(exampleRequest, exampleKey), (exampleRequest, exampleKey)],
       completions := [(exampleKey, exampleResp), (exampleKey, secondResp)]\<rparr>"
  by (simp add: exampleTwice_def trigger_eval example_defs)



lemma init_example_bad_between:
  "init (exampleComponent\<lparr>links := Some [exampleLink, badLink, exampleLink]\<rparr>) =
     (Some InvalidCharacterError,
      exampleComponent\<lparr>links := Some [exampleLink, badLink, exampleLink],
        scannedLinks := [exampleLink, badLink, exampleLink], loadingMgr := {exampleKey},
        subscriptions := [(exampleRequest, exampleKey)]\<rparr>)"
  by (simp add: trigger_eval example_defs)

lemma init_example_bad_first:
  "init (exampleComponent\<lparr>links := Some [badLink, exampleLink]\<rparr>) =
     (Some InvalidCharacterError,
      exampleComponent\<lparr>links := Some [badLink, exampleLink],
        scannedLinks := [badLink, exampleLink]\<rparr>)"
  by (simp add: trigger_eval example_defs)



text \<open>
  Among observables that answer inside \<^verbatim>\<open>subscribe\<close>, a link given twice is fetched
  once: the first response is cached before the loop reaches the second occurrence, which
  is served from the cache.
\<close>

lemma init_exampleSync_twice:
  "init (exampleSync\<lparr>links := Some [exampleLink, exampleLink]\<rparr>) =
     (None,
      exampleSync\<lparr>links := Some [exampleLink, exampleLink],
        scannedLinks := [exampleLink, exampleLink], previews := [exampleResp, exampleResp],
        cacheSvc := [exampleKey \<mapsto> exampleResp],
        subscriptions := [(exampleRequest, exampleKey)],
        completions := [(exampleKey, exampleResp)]\<rparr>)"
  by (simp add: exampleSync_def trigger_eval example_defs)

lemma exampleLinks_fields:
  "checkInputParameters (exampleComponent\<lparr>links := Some ls\<rparr>) = None"
  "getApiEndpoint (exampleComponent\<lparr>links := Some ls\<rparr>) = Some (\<lambda>u. u)"
  "candidateLinks (parseForLinksStr (exampleComponent\<lparr>links := Some ls\<rparr>))
      (links (exampleComponent\<lparr>links := Some ls\<rparr>)) = Inr ls"
  "requestUrlOf (exampleComponent\<lparr>links := Some ls\<rparr>) exampleKey = exampleRequest"
  "cacheSvc (exampleComponent\<lparr>links := Some ls\<rparr>) k = None"
  "subscriptions (exampleComponent\<lparr>links := Some ls\<rparr>) = []"
  "loadingMgr (exampleComponent\<lparr>links := Some ls\<rparr>) = {}"
  by (simp_all add: trigger_eval example_defs)



lemma examplePending_plain:
  "checkInputParameters examplePending = None"
  "getApiEndpoint examplePending = Some (\<lambda>u. u)"
  "candidateLinks (parseForLinksStr examplePending) (links examplePending) = Inr [exampleLink]"
  "requestUrlOf examplePending exampleKey = exampleRequest"
  "cacheSvc examplePending exampleKey = None"
  "subscriptions examplePending = [(exampleRequest, exampleKey)]"
  "loadingMgr examplePending = {exampleKey}"
  "previews examplePending = []"
  "parseForLinksStr examplePending = None"
  by (simp_all add: examplePending_eq trigger_eval example_defs)

lemma exampleCached_plain:
  "checkInputParameters exampleCached = None"
  "candidateLinks (parseForLinksStr exampleCached) (links exampleCached) = Inr [exampleLink]"
  "useCache exampleCached"
  "cacheSvc exampleCached exampleKey = Some exampleResp"
  "subscriptions exampleCached = [(exampleRequest, exampleKey)]"
  "loadingMgr exampleCached = {}"
  "previews exampleCached = [exampleResp]"
  "completions exampleCached = [(exampleKey, exampleResp)]"
  "parseForLinksStr exampleCached = None"
  by (simp_all add: exampleCached_eq trigger_eval example_defs)

lemma exampleTwice_plain:
  "loadingMgr exampleTwice = {}"
  "completions exampleTwice = [(exampleKey, exampleResp), (exampleKey, secondResp)]"
  "cacheSvc exampleTwice = [exampleKey \<mapsto> secondResp]"
  by (simp_all add: exampleTwice_eq exampleComponent_def bindInputs_def newComponent_def)

lemma exampleTextComponent_fields:
  "checkInputParameters (exampleComponent\<lparr>parseForLinksStr := Some exampleText\<rparr>) = None"
  "candidateLinks (parseForLinksStr (exampleComponent\<lparr>parseForLinksStr := Some exampleText\<rparr>))
      (links (exampleComponent\<lparr>parseForLinksStr := Some exampleText\<rparr>))
     = Inr [ascii ''http://foo.bar.org/x'', exampleLink]"
proof -
  show "checkInputParameters (exampleComponent\<lparr>parseForLinksStr := Some exampleText\<rparr>) = None"
    by (simp add: exampleComponent_def bindInputs_def exampleInputs_def newComponent_def
        checkInputParameters_def truthy_def ascii_def)
  have "parseStringForLinks (Some exampleText) = Inr [ascii ''http://foo.bar.org/x'']"
    by (simp add: exampleText_def parseStringForLinks_def stringMatch_def urlPattern_def lit_def
        litIgnoreCase_def hostChar_def tldChar_def pathChar_def wordChar_def wordBefore_def
        wordAfter_def uriAlpha_def decimalDigit_def ascii_def)
  then show "candidateLinks (parseForLinksStr (exampleComponent\<lparr>parseForLinksStr := Some exampleText\<rparr>))
      (links (exampleComponent\<lparr>parseForLinksStr := Some exampleText\<rparr>))
     = Inr [ascii ''http://foo.bar.org/x'', exampleLink]"
    by (simp add: candidateLinks_def exampleComponent_def bindInputs_def exampleInputs_def
        newComponent_def)
qed

section \<open>The claims about a trigger\<close>

text \<open>
  C4. The candidate links a trigger builds are the links extracted from the free text, in
  their order of appearance, followed by the explicit links, in their given order (an
  absent text or list contributes nothing). The trigger must pass the check of its
  configuration to get that far.
\<close>

theorem init_candidate_links:
  assumes "checkInputParameters s = None"
  shows "\<exists>cand. candidateLinks (parseForLinksStr s) (links s) = Inr cand
           \<and> scannedLinks (snd (init s)) = cand"
proof -
  obtain cand where c: "candidateLinks (parseForLinksStr s) (links s) = Inr cand"
    using candidateLinks_total by blast
  then show ?thesis
    by (simp add: init_eq [OF assms c] forLinks_frame del: forLinks.simps)
qed

theorem init_candidate_links_witness:
  "checkInputParameters (exampleComponent\<lparr>parseForLinksStr := Some exampleText\<rparr>) = None
   \<and> scannedLinks (snd (init (exampleComponent\<lparr>parseForLinksStr := Some exampleText\<rparr>)))
       = [ascii ''http://foo.bar.org/x'', exampleLink]"
  using init_candidate_links [OF exampleTextComponent_fields(1)] exampleTextComponent_fields
  by simp








text \<open>
  C7 (as amended). The loop has no handler: when a candidate link does not encode, the
  exception leaves the trigger. The state the trigger leaves is the state the loop has
  reached after the links before the offending one, which it has processed without an
  exception (their cached previews appended, their fetches subscribed to, the responses
  that came inside \<^verbatim>\<open>subscribe\<close> handled); the offending link and every link after it
  are not processed, whatever they are.
\<close>

theorem init_encoding_error_aborts:
  assumes "checkInputParameters s = None" and "getApiEndpoint s = Some f"
    and "candidateLinks (parseForLinksStr s) (links s) = Inr (pre @ bad # post)"
    and "map encodeUrlSafe pre = map Inr ks"
    and "encodeUrlSafe bad = Inl e"
  shows "init s =
           (Some e, snd (forLinks (s\<lparr>scannedLinks := pre @ bad # post, previews := []\<rparr>) pre))
       \<and> fst (forLinks (s\<lparr>scannedLinks := pre @ bad # post, previews := []\<rparr>) pre) = None"
  using assms by (rule init_abort)

theorem init_encoding_error_aborts_witness:
  "encodeUrlSafe badLink = Inl InvalidCharacterError
   \<and> fst (init (exampleComponent\<lparr>links := Some [exampleLink, badLink, exampleLink]\<rparr>))
       = Some InvalidCharacterError
   \<and> subscriptions (snd (init (exampleComponent\<lparr>links := Some [exampleLink, badLink, exampleLink]\<rparr>)))
       = [(exampleRequest, exampleKey)]
   \<and> previews (snd (init (exampleComponent\<lparr>links := Some [exampleLink, badLink, exampleLink]\<rparr>)))
       = []"
proof -
  have ks: "map encodeUrlSafe [exampleLink] = map Inr [exampleKey]"
    by (simp add: exampleKey_eq)
  have cand: "candidateLinks
      (parseForLinksStr (exampleComponent\<lparr>links := Some [exampleLink, badLink, exampleLink]\<rparr>))
      (links (exampleComponent\<lparr>links := Some [exampleLink, badLink, exampleLink]\<rparr>))
      = Inr ([exampleLink] @ badLink # [exampleLink])"
    using exampleLinks_fields(3) [of "[exampleLink, badLink, exampleLink]"] by simp
  from init_encoding_error_aborts [OF exampleLinks_fields(1,2) cand ks badLink_fails]
  have a: "fst (init (exampleComponent\<lparr>links := Some [exampleLink, badLink, exampleLink]\<rparr>))
       = Some InvalidCharacterError"
    by (simp del: forLinks.simps)
  note i = init_example_bad_between
  have b: "subscriptions (snd (init (exampleComponent\<lparr>links := Some [exampleLink, badLink, exampleLink]\<rparr>)))
       = [(exampleRequest, exampleKey)]"
    unfolding i by simp
  have c: "previews (snd (init (exampleComponent\<lparr>links := Some [exampleLink, badLink, exampleLink]\<rparr>)))
       = []"
    unfolding i by (simp add: exampleComponent_def bindInputs_def newComponent_def)
  show ?thesis
    by (intro conjI badLink_fails a b c)
qed

text \<open>
  C7 as stated fails: with an offending link first, the trigger throws, and the link
  after it, which encodes and is not cached, gets neither a fetch nor a preview.
\<close>

theorem init_encoding_error_counterexample:
  "encodeUrlSafe badLink = Inl InvalidCharacterError
   \<and> encodeUrlSafe exampleLink = Inr exampleKey
   \<and> cacheSvc (exampleComponent\<lparr>links := Some [badLink, exampleLink]\<rparr>) exampleKey = None
   \<and> fst (init (exampleComponent\<lparr>links := Some [badLink, exampleLink]\<rparr>))
       = Some InvalidCharacterError
   \<and> subscriptions (snd (init (exampleComponent\<lparr>links := Some [badLink, exampleLink]\<rparr>))) = []
   \<and> previews (snd (init (exampleComponent\<lparr>links := Some [badLink, exampleLink]\<rparr>))) = []
   \<and> loadingMgr (snd (init (exampleComponent\<lparr>links := Some [badLink, exampleLink]\<rparr>))) = {}"
proof -
  note i = init_example_bad_first
  have a: "fst (init (exampleComponent\<lparr>links := Some [badLink, exampleLink]\<rparr>))
       = Some InvalidCharacterError"
    unfolding i by simp
  have b: "subscriptions (snd (init (exampleComponent\<lparr>links := Some [badLink, exampleLink]\<rparr>))) = []"
    "previews (snd (init (exampleComponent\<lparr>links := Some [badLink, exampleLink]\<rparr>))) = []"
    "loadingMgr (snd (init (exampleComponent\<lparr>links := Some [badLink, exampleLink]\<rparr>))) = {}"
    unfolding i by (simp_all add: exampleComponent_def bindInputs_def newComponent_def)
  show ?thesis
    by (intro conjI badLink_fails exampleKey_eq exampleLinks_fields(5) a b)
qed

section \<open>The callback of a fetch\<close>

lemma callback_prefix:
  "n = 0 \<or> n = 1 \<or> n = 2 \<or> 3 \<le> n" for n :: nat
  by arith

lemma run_completions:
  assumes "completions t = []" and "x \<in> set (completions (run t evs))"
  shows "cacheSvc (run t evs) (fst x) = latestFor (fst x) (completions (run t evs))"
    and "cacheSvc (run t evs) (fst x) \<noteq> None"
proof -
  have "cacheHoldsLatest t" using assms(1) by (simp add: cacheHoldsLatest_def)
  then have "cacheHoldsLatest (run t evs)" by (rule cacheHoldsLatest_run)
  with assms(2) show a: "cacheSvc (run t evs) (fst x) = latestFor (fst x) (completions (run t evs))"
    by (simp add: cacheHoldsLatest_def)
  from latestFor_mem [OF assms(2)] a show "cacheSvc (run t evs) (fst x) \<noteq> None" by simp
qed

text \<open>
  C10 (as amended). The callback of a fetch stores the response in the cache first: from
  its first statement on the cache holds the response under the key, the key leaves the
  pending set no earlier than the second statement, and the response joins the previews in
  the third. So in every state of the callback in which the pending set or the previews
  have changed, the record is in the cache already. After any run of triggers and
  responses, whether the responses come inside \<^verbatim>\<open>subscribe\<close> or later (and in particular
  when the pending set has become empty), the cache has an entry for the key of every
  completed fetch, and the entry is the response of the latest fetch completed for that
  key: an earlier response for the same key has been overwritten.
\<close>

theorem callback_caches_before_removal:
  "(\<forall>n. 1 \<le> n \<longrightarrow> cacheSvc (runSteps (take n (callbackSteps k resp)) s) k = Some resp)
   \<and> (\<forall>n. n \<le> 1 \<longrightarrow> loadingMgr (runSteps (take n (callbackSteps k resp)) s) = loadingMgr s)
   \<and> (\<forall>n. n \<le> 2 \<longrightarrow> previews (runSteps (take n (callbackSteps k resp)) s) = previews s)
   \<and> (\<forall>n. loadingMgr (runSteps (take n (callbackSteps k resp)) s) \<noteq> loadingMgr s
            \<or> previews (runSteps (take n (callbackSteps k resp)) s) \<noteq> previews s
          \<longrightarrow> cacheSvc (runSteps (take n (callbackSteps k resp)) s) k = Some resp)
   \<and> callback k resp s =
        s\<lparr>cacheSvc := (cacheSvc s)(k \<mapsto> resp), loadingMgr := loadingMgr s - {k},
          previews := previews s @ [resp]\<rparr>
   \<and> (cacheHoldsLatest t \<longrightarrow> cacheHoldsLatest (run t evs))
   \<and> (completions t = [] \<longrightarrow>
        (\<forall>x \<in> set (completions (run t evs)).
           cacheSvc (run t evs) (fst x) = latestFor (fst x) (completions (run t evs))
           \<and> cacheSvc (run t evs) (fst x) \<noteq> None))"
proof (intro conjI allI impI ballI)
  fix n :: nat
  assume "1 \<le> n"
  with callback_prefix [of n] show "cacheSvc (runSteps (take n (callbackSteps k resp)) s) k = Some resp"
    by (auto simp: runSteps_def callbackSteps_def updateCacheItem_def)
next
  fix n :: nat
  assume "n \<le> 1"
  then have "n = 0 \<or> n = 1" by arith
  then show "loadingMgr (runSteps (take n (callbackSteps k resp)) s) = loadingMgr s"
    by (auto simp: runSteps_def callbackSteps_def)
next
  fix n :: nat
  assume "n \<le> 2"
  then have "n = 0 \<or> n = 1 \<or> n = 2" by arith
  then show "previews (runSteps (take n (callbackSteps k resp)) s) = previews s"
    by (auto simp: runSteps_def callbackSteps_def)
next
  fix n :: nat
  assume changed: "loadingMgr (runSteps (take n (callbackSteps k resp)) s) \<noteq> loadingMgr s
            \<or> previews (runSteps (take n (callbackSteps k resp)) s) \<noteq> previews s"
  have "n \<noteq> 0"
  proof
    assume "n = 0"
    with changed show False by (simp add: runSteps_def)
  qed
  with callback_prefix [of n]
  show "cacheSvc (runSteps (take n (callbackSteps k resp)) s) k = Some resp"
    by (auto simp: runSteps_def callbackSteps_def updateCacheItem_def)
next
  show "callback k resp s =
        s\<lparr>cacheSvc := (cacheSvc s)(k \<mapsto> resp), loadingMgr := loadingMgr s - {k},
          previews := previews s @ [resp]\<rparr>"
    by (rule callback_eq)
next
  assume "cacheHoldsLatest t"
  then show "cacheHoldsLatest (run t evs)" by (rule cacheHoldsLatest_run)
next
  fix x assume "completions t = []" and "x \<in> set (completions (run t evs))"
  then show "cacheSvc (run t evs) (fst x) = latestFor (fst x) (completions (run t evs))"
    by (rule run_completions)
next
  fix x assume "completions t = []" and "x \<in> set (completions (run t evs))"
  then show "cacheSvc (run t evs) (fst x) \<noteq> None"
    by (rule run_completions)
qed

theorem callback_caches_before_removal_witness:
  "cacheSvc (runSteps (take 1 (callbackSteps exampleKey exampleResp)) examplePending) exampleKey
     = Some exampleResp
   \<and> loadingMgr (runSteps (take 1 (callbackSteps exampleKey exampleResp)) examplePending)
     = {exampleKey}
   \<and> previews (runSteps (take 2 (callbackSteps exampleKey exampleResp)) examplePending) = []
   \<and> loadingMgr (runSteps (take 2 (callbackSteps exampleKey exampleResp)) examplePending)
     \<noteq> loadingMgr examplePending
   \<and> cacheSvc (runSteps (take 2 (callbackSteps exampleKey exampleResp)) examplePending) exampleKey
     = Some exampleResp
   \<and> completions (newComponent Map.empty :: jsstring component) = []
   \<and> completions exampleCached = [(exampleKey, exampleResp)]
   \<and> loadingMgr exampleCached = {}
   \<and> cacheSvc exampleCached exampleKey = Some exampleResp
   \<and> latestFor exampleKey (completions exampleCached) = Some exampleResp
   \<and> cacheHoldsLatest exampleCached"
proof -
  let ?new = "newComponent Map.empty :: jsstring component"
  let ?evs = "[Changes exampleInputs, Emits 0 exampleResp]"
  note inst = callback_caches_before_removal [of exampleKey exampleResp examplePending ?new ?evs]
  have r: "run ?new ?evs = exampleCached" by (simp only: exampleCached_def)
  have e: "completions ?new = []" by (simp add: newComponent_def)
  have n: "cacheHoldsLatest ?new" by (rule cacheHoldsLatest_new)
  have m: "(exampleKey, exampleResp) \<in> set (completions exampleCached)"
    by (simp add: exampleCached_plain)
  from inst have 1: "cacheSvc (runSteps (take 1 (callbackSteps exampleKey exampleResp)) examplePending)
      exampleKey = Some exampleResp"
    by blast
  from inst have 2: "loadingMgr (runSteps (take 1 (callbackSteps exampleKey exampleResp)) examplePending)
      = loadingMgr examplePending"
    by blast
  from inst have 3: "previews (runSteps (take 2 (callbackSteps exampleKey exampleResp)) examplePending)
      = previews examplePending"
    by blast
  have 4: "loadingMgr (runSteps (take 2 (callbackSteps exampleKey exampleResp)) examplePending)
     \<noteq> loadingMgr examplePending"
    by (simp add: runSteps_def callbackSteps_def removeTask_def examplePending_plain)
  from inst 4 have 5: "cacheSvc (runSteps (take 2 (callbackSteps exampleKey exampleResp)) examplePending)
      exampleKey = Some exampleResp"
    by blast
  from inst n have 6: "cacheHoldsLatest (run ?new ?evs)" by blast
  from inst e have "\<forall>x \<in> set (completions (run ?new ?evs)).
           cacheSvc (run ?new ?evs) (fst x) = latestFor (fst x) (completions (run ?new ?evs))
           \<and> cacheSvc (run ?new ?evs) (fst x) \<noteq> None"
    by blast
  with m have 7: "cacheSvc exampleCached exampleKey = latestFor exampleKey (completions exampleCached)"
    unfolding r by fastforce
  from 1 2 3 4 5 6 7 e show ?thesis
    unfolding r by (simp add: examplePending_plain exampleCached_plain)
qed

text \<open>
  C10 as stated fails in its last part: when the same key is fetched twice and the two
  fetches complete with different responses, the pending set is empty, both fetches have
  completed, and the result of the first is not in the cache: the second has overwritten
  it.
\<close>

theorem callback_caches_before_removal_counterexample:
  "loadingMgr exampleTwice = {}
   \<and> completions exampleTwice = [(exampleKey, exampleResp), (exampleKey, secondResp)]
   \<and> cacheSvc exampleTwice exampleKey = Some secondResp
   \<and> secondResp \<noteq> exampleResp
   \<and> (\<forall>k. cacheSvc exampleTwice k \<noteq> Some exampleResp)"
  using secondResp_differs by (simp add: exampleTwice_plain)

end
